theory Spec2Isabelle
  imports Main "HOL-Library.Word"
begin

section \<open>Memory model\<close>

text \<open>
  Pointers are optional addresses, \<open>None\<close> being \<open>NULL\<close>. A \<open>struct timer\<close> has its
  \<open>struct heap_node\<close> as first member, so \<open>CONTAINER_OF(n, struct timer, node)\<close> is the
  address \<open>n\<close> itself: the object store \<open>objs\<close> maps the address of a node to the timer
  that embeds it. Dereferencing \<open>NULL\<close> (also calling a \<open>NULL\<close> function pointer) is the
  fault \<open>NullDeref\<close>. The field \<open>next\<close> of the source is \<open>next'\<close> here.
\<close>

type_synonym addr = nat
type_synonym ptr = "addr option"

datatype fault = NullDeref

record heap_node =
  next' :: ptr
  prev :: ptr
  parent :: ptr

record timer =
  node :: heap_node
  expiry :: "64 word"
  period :: "64 word"
  callback :: "nat option"
  data :: "nat option"

type_synonym cmp_fn = "(addr \<Rightarrow> timer) \<Rightarrow> addr \<Rightarrow> addr \<Rightarrow> int"

record priority_queue =
  head :: ptr
  tail :: ptr
  root :: ptr
  compare :: "cmp_fn option"

text \<open>
  The program state: the queue structures and the timer objects in memory, the static
  tick counter of timer.c, and the trace of callback invocations (callbacks are opaque
  user code; the only effect recorded of a call is the pair of the timer and the value
  of the tick counter at that moment).
\<close>

record state =
  queues :: "addr \<Rightarrow> priority_queue"
  objs :: "addr \<Rightarrow> timer"
  global_ticks :: "64 word"
  fired :: "(addr \<times> 64 word) list"

definition upd_pq :: "addr \<Rightarrow> (priority_queue \<Rightarrow> priority_queue) \<Rightarrow> state \<Rightarrow> state" where
  "upd_pq p f s = s\<lparr>queues := (queues s)(p := f (queues s p))\<rparr>"

definition upd_timer :: "addr \<Rightarrow> (timer \<Rightarrow> timer) \<Rightarrow> state \<Rightarrow> state" where
  "upd_timer a f s = s\<lparr>objs := (objs s)(a := f (objs s a))\<rparr>"

definition upd_node :: "addr \<Rightarrow> (heap_node \<Rightarrow> heap_node) \<Rightarrow> state \<Rightarrow> state" where
  "upd_node a f s = upd_timer a (\<lambda>t. t\<lparr>node := f (node t)\<rparr>) s"

section \<open>priority_queue.c\<close>

definition EINVAL :: int where
  "EINVAL = 22"

definition swap_nodes :: "addr \<Rightarrow> addr \<Rightarrow> state \<Rightarrow> state" where
  "swap_nodes a b s =
    (let temp = node (objs s a);
         s1 = upd_node a (\<lambda>_. node (objs s b)) s;
         s2 = upd_node b (\<lambda>_. temp) s1
     in if parent (node (objs s2 a)) = Some b then
          (let s3 = upd_node a (\<lambda>n. n\<lparr>parent := parent (node (objs s2 b))\<rparr>) s2
           in upd_node b (\<lambda>n. n\<lparr>parent := Some a\<rparr>) s3)
        else if parent (node (objs s2 b)) = Some a then
          (let s3 = upd_node b (\<lambda>n. n\<lparr>parent := parent (node (objs s2 a))\<rparr>) s2
           in upd_node a (\<lambda>n. n\<lparr>parent := Some b\<rparr>) s3)
        else
          (let temp_parent = parent (node (objs s2 a));
               s3 = upd_node a (\<lambda>n. n\<lparr>parent := parent (node (objs s2 b))\<rparr>) s2
           in upd_node b (\<lambda>n. n\<lparr>parent := temp_parent\<rparr>) s3))"

definition pq_init :: "ptr \<Rightarrow> cmp_fn option \<Rightarrow> state \<Rightarrow> int \<times> state" where
  "pq_init pq cmp s =
    (if pq = None \<or> Option.is_none cmp then (- EINVAL, s)
     else (0, upd_pq (the pq)
                (\<lambda>q. q\<lparr>head := None, tail := None, root := None, compare := cmp\<rparr>) s))"

definition pq_insert :: "ptr \<Rightarrow> ptr \<Rightarrow> state \<Rightarrow> fault + (int \<times> state)" where
  "pq_insert pq nd s =
    (if pq = None \<or> nd = None then Inr (- EINVAL, s)
     else
       (let p = the pq; n = the nd in
        if head (queues s p) = None then
          (let s1 = upd_pq p (\<lambda>q. q\<lparr>head := Some n, tail := Some n, root := Some n\<rparr>) s;
               s2 = upd_node n (\<lambda>x. x\<lparr>next' := None, prev := None, parent := None\<rparr>) s1
           in Inr (0, s2))
        else
          (case tail (queues s p) of
             None \<Rightarrow> Inl NullDeref
           | Some t \<Rightarrow>
               (let s1 = upd_node t (\<lambda>x. x\<lparr>next' := Some n\<rparr>) s;
                    s2 = upd_node n (\<lambda>x. x\<lparr>prev := tail (queues s1 p)\<rparr>) s1;
                    s3 = upd_pq p (\<lambda>q. q\<lparr>tail := Some n\<rparr>) s2;
                    s4 = upd_node n (\<lambda>x. x\<lparr>next' := None\<rparr>) s3
                in Inr (0, s4)))))"

definition pq_pop :: "ptr \<Rightarrow> state \<Rightarrow> fault + (ptr \<times> state)" where
  "pq_pop pq s =
    (if pq = None then Inr (None, s)
     else
       (let p = the pq in
        if head (queues s p) = None then Inr (None, s)
        else
          (let root_node = root (queues s p) in
           if head (queues s p) = tail (queues s p) then
             Inr (root_node, upd_pq p (\<lambda>q. q\<lparr>head := None, tail := None, root := None\<rparr>) s)
           else
             (let s1 = upd_pq p (\<lambda>q. q\<lparr>root := tail q\<rparr>) s in
              case tail (queues s1 p) of
                None \<Rightarrow> Inl NullDeref
              | Some t \<Rightarrow>
                  (let s2 = (case prev (node (objs s1 t)) of
                               None \<Rightarrow> s1
                             | Some pv \<Rightarrow> upd_node pv (\<lambda>x. x\<lparr>next' := None\<rparr>) s1);
                       s3 = upd_pq p (\<lambda>q. q\<lparr>tail := prev (node (objs s2 t))\<rparr>) s2
                   in case root (queues s3 p) of
                        None \<Rightarrow> Inl NullDeref
                      | Some r \<Rightarrow>
                          Inr (root_node,
                               upd_node r (\<lambda>x. x\<lparr>next' := None, prev := None\<rparr>) s3))))))"

definition pq_peek :: "ptr \<Rightarrow> state \<Rightarrow> ptr" where
  "pq_peek pq s =
    (if pq = None \<or> root (queues s (the pq)) = None then None
     else root (queues s (the pq)))"

text \<open>
  One statement \<open>if (cand && pq->compare(cand, largest) > 0) largest = cand;\<close> of the
  loop of \<open>pq_reorder\<close>: the new value of \<open>largest\<close>.
\<close>

definition pick :: "addr \<Rightarrow> ptr \<Rightarrow> addr \<Rightarrow> state \<Rightarrow> fault + addr" where
  "pick p cand largest s =
    (case cand of
       None \<Rightarrow> Inr largest
     | Some n \<Rightarrow>
         (case compare (queues s p) of
            None \<Rightarrow> Inl NullDeref
          | Some c \<Rightarrow> Inr (if c (objs s) n largest > 0 then n else largest)))"

text \<open>The \<open>while (1)\<close> loop of \<open>pq_reorder\<close>; \<open>None\<close> is a loop that never ends.\<close>

partial_function (option) reorder_loop :: "addr \<Rightarrow> addr \<Rightarrow> state \<Rightarrow> (fault + state) option" where
  "reorder_loop p current s =
    (case pick p (next' (node (objs s current))) current s of
       Inl f \<Rightarrow> Some (Inl f)
     | Inr l1 \<Rightarrow>
         (case pick p (prev (node (objs s current))) l1 s of
            Inl f \<Rightarrow> Some (Inl f)
          | Inr largest \<Rightarrow>
              if largest = current then Some (Inr s)
              else reorder_loop p current (swap_nodes current largest s)))"

declare reorder_loop.simps [code]

definition pq_reorder :: "ptr \<Rightarrow> state \<Rightarrow> (fault + state) option" where
  "pq_reorder pq s =
    (if pq = None \<or> head (queues s (the pq)) = None then Some (Inr s)
     else
       (case root (queues s (the pq)) of
          None \<Rightarrow> Some (Inl NullDeref)
        | Some current \<Rightarrow> reorder_loop (the pq) current s))"

section \<open>timer.c\<close>

text \<open>The static \<open>timer_queue\<close> lives at a fixed address of the queue store.\<close>

definition timer_queue :: addr where
  "timer_queue = 0"

definition timer_compare :: cmp_fn where
  "timer_compare h a b =
    (if expiry (h a) > expiry (h b) then 1 else 0) - (if expiry (h a) < expiry (h b) then 1 else 0)"

definition timer_module_init :: "state \<Rightarrow> state" where
  "timer_module_init s =
    (let s1 = snd (pq_init (Some timer_queue) (Some timer_compare) s)
     in s1\<lparr>global_ticks := 0\<rparr>)"

definition timer_init :: "addr \<Rightarrow> nat option \<Rightarrow> nat option \<Rightarrow> state \<Rightarrow> state" where
  "timer_init t cb d s =
    upd_timer t (\<lambda>x. x\<lparr>callback := cb, data := d, expiry := 0, period := 0\<rparr>) s"

definition timer_start :: "addr \<Rightarrow> 64 word \<Rightarrow> bool \<Rightarrow> state \<Rightarrow> (fault + state) option" where
  "timer_start t ticks periodic s =
    (let s1 = upd_timer t (\<lambda>x. x\<lparr>expiry := global_ticks s + ticks\<rparr>) s;
         s2 = upd_timer t (\<lambda>x. x\<lparr>period := (if periodic then ticks else 0)\<rparr>) s1
     in case pq_insert (Some timer_queue) (Some t) s2 of
          Inl f \<Rightarrow> Some (Inl f)
        | Inr (rc, s3) \<Rightarrow> pq_reorder (Some timer_queue) s3)"

definition timer_set_period :: "addr \<Rightarrow> 64 word \<Rightarrow> state \<Rightarrow> state" where
  "timer_set_period t ticks s = upd_timer t (\<lambda>x. x\<lparr>period := ticks\<rparr>) s"

text \<open>
  \<open>timer_stop\<close> only calls \<open>pq_remove\<close>, which priority_queue.c does not define; it is
  left out, and no run below disarms a timer.
\<close>

text \<open>\<open>next_timer->callback(next_timer, next_timer->data)\<close>.\<close>

definition invoke_callback :: "addr \<Rightarrow> state \<Rightarrow> fault + state" where
  "invoke_callback t s =
    (case callback (objs s t) of
       None \<Rightarrow> Inl NullDeref
     | Some cb \<Rightarrow> Inr (s\<lparr>fired := fired s @ [(t, global_ticks s)]\<rparr>))"

text \<open>The body of the \<open>while\<close> loop of \<open>timer_increment_tick\<close>, up to the next peek.\<close>

definition tick_body :: "addr \<Rightarrow> state \<Rightarrow> fault + state" where
  "tick_body next_timer s =
    (case pq_pop (Some timer_queue) s of
       Inl f \<Rightarrow> Inl f
     | Inr (popped, s1) \<Rightarrow>
         (case invoke_callback next_timer s1 of
            Inl f \<Rightarrow> Inl f
          | Inr s2 \<Rightarrow>
              if period (objs s2 next_timer) \<noteq> 0 then
                (let s3 = upd_timer next_timer
                            (\<lambda>x. x\<lparr>expiry := expiry x + period x\<rparr>) s2
                 in case pq_insert (Some timer_queue) (Some next_timer) s3 of
                      Inl f \<Rightarrow> Inl f
                    | Inr (rc, s4) \<Rightarrow> Inr s4)
              else Inr s2))"

text \<open>The \<open>while\<close> loop of \<open>timer_increment_tick\<close>; \<open>None\<close> is a loop that never ends.\<close>

partial_function (option) drain :: "state \<Rightarrow> (fault + state) option" where
  "drain s =
    (case pq_peek (Some timer_queue) s of
       None \<Rightarrow> Some (Inr s)
     | Some next_timer \<Rightarrow>
         if expiry (objs s next_timer) \<le> global_ticks s then
           (case tick_body next_timer s of
              Inl f \<Rightarrow> Some (Inl f)
            | Inr s' \<Rightarrow> drain s')
         else Some (Inr s))"

declare drain.simps [code]

definition timer_increment_tick :: "state \<Rightarrow> (fault + state) option" where
  "timer_increment_tick s =
    (let s1 = s\<lparr>global_ticks := global_ticks s + 1\<rparr>
     in case drain s1 of
          None \<Rightarrow> None
        | Some (Inl f) \<Rightarrow> Some (Inl f)
        | Some (Inr s2) \<Rightarrow> pq_reorder (Some timer_queue) s2)"

text \<open>\<open>n\<close> consecutive calls of \<open>timer_increment_tick\<close>, stopping at the first that does not return.\<close>

fun run_ticks :: "nat \<Rightarrow> state \<Rightarrow> (fault + state) option" where
  "run_ticks 0 s = Some (Inr s)"
| "run_ticks (Suc n) s =
    (case timer_increment_tick s of
       None \<Rightarrow> None
     | Some (Inl f) \<Rightarrow> Some (Inl f)
     | Some (Inr s') \<Rightarrow> run_ticks n s')"

section \<open>Scenarios\<close>

text \<open>Sequencing of calls: a call that faults or never returns ends the run.\<close>

definition andthen :: "(fault + state) option \<Rightarrow> (state \<Rightarrow> (fault + state) option) \<Rightarrow> (fault + state) option" where
  "andthen r f = (case r of None \<Rightarrow> None | Some (Inl e) \<Rightarrow> Some (Inl e) | Some (Inr s) \<Rightarrow> f s)"

definition observe :: "(state \<Rightarrow> 'a) \<Rightarrow> (fault + state) option \<Rightarrow> (fault + 'a) option" where
  "observe f r = map_option (map_sum id f) r"

text \<open>
  Zero-initialised memory, and the state after \<open>timer_module_init\<close> and \<open>timer_init\<close> of
  the timers at addresses 1, 2 and 3 (each with a callback).
\<close>

definition zero_timer :: timer where
  "zero_timer = \<lparr>node = \<lparr>next' = None, prev = None, parent = None\<rparr>,
                 expiry = 0, period = 0, callback = None, data = None\<rparr>"

definition blank :: state where
  "blank = \<lparr>queues = (\<lambda>_. \<lparr>head = None, tail = None, root = None, compare = None\<rparr>),
            objs = (\<lambda>_. zero_timer), global_ticks = 0, fired = []\<rparr>"

definition boot :: state where
  "boot = timer_init 3 (Some 0) None
            (timer_init 2 (Some 0) None (timer_init 1 (Some 0) None (timer_module_init blank)))"

text \<open>The queue after \<open>pq_insert\<close> of node 1, and after node 1 and then node 2.\<close>

definition one_node :: state where
  "one_node =
    (case pq_insert (Some timer_queue) (Some 1) boot of
       Inl f \<Rightarrow> boot
     | Inr (rc, s1) \<Rightarrow> s1)"

definition two_nodes :: state where
  "two_nodes =
    (case pq_insert (Some timer_queue) (Some 1) boot of
       Inl f \<Rightarrow> boot
     | Inr (rc, s1) \<Rightarrow>
         (case pq_insert (Some timer_queue) (Some 2) s1 of
            Inl f \<Rightarrow> boot
          | Inr (rc', s2) \<Rightarrow> s2))"

text \<open>Timer 1 armed for 5 ticks, then timer 2 for 3 ticks, both one-shot.\<close>

definition late_then_early :: "(fault + state) option" where
  "late_then_early = andthen (timer_start 1 5 False boot) (timer_start 2 3 False)"

text \<open>Timer 1 armed for 2 ticks, then timer 2 for 1 tick, both one-shot.\<close>

definition two_one_shots :: "(fault + state) option" where
  "two_one_shots = andthen (timer_start 1 2 False boot) (timer_start 2 1 False)"

text \<open>Timer 1 armed for 1 tick, then timer 2 for 5 ticks, both one-shot.\<close>

definition early_then_late :: "(fault + state) option" where
  "early_then_late = andthen (timer_start 1 1 False boot) (timer_start 2 5 False)"

text \<open>Timer 1 and then timer 2 armed periodic, both with period 1.\<close>

definition two_periodic :: "(fault + state) option" where
  "two_periodic = andthen (timer_start 1 1 True boot) (timer_start 2 1 True)"

text \<open>Two nodes in the queue, node 1 with deadline 1 and node 2 with deadline 5.\<close>

definition two_armed :: state where
  "two_armed = upd_timer 2 (\<lambda>x. x\<lparr>expiry := 5\<rparr>) (upd_timer 1 (\<lambda>x. x\<lparr>expiry := 1\<rparr>) two_nodes)"

text \<open>Three nodes in the queue, with deadlines 0, 1 and 1.\<close>

definition three_armed :: state where
  "three_armed =
    (case pq_insert (Some timer_queue) (Some 3) two_nodes of
       Inl f \<Rightarrow> boot
     | Inr (rc, s) \<Rightarrow>
         upd_timer 3 (\<lambda>x. x\<lparr>expiry := 1\<rparr>) (upd_timer 2 (\<lambda>x. x\<lparr>expiry := 1\<rparr>) s))"

text \<open>
  The counter at \<open>2 ^ 64 - 2\<close> (reached by that many calls of \<open>timer_increment_tick\<close> with
  no timer armed), then timer 1 armed periodic with period 1.
\<close>

definition at_wrap :: state where
  "at_wrap =
    (case timer_start 1 1 True (boot\<lparr>global_ticks := - 2\<rparr>) of
       Some (Inr s) \<Rightarrow> s
     | _ \<Rightarrow> boot)"

text \<open>A queue structure whose root is set while its head is \<open>NULL\<close>.\<close>

definition stale_root :: state where
  "stale_root = upd_pq timer_queue (\<lambda>q. q\<lparr>root := Some 1\<rparr>) boot"

text \<open>Timer 1 armed periodic with period 3 at tick 0, seen with the counter at 7.\<close>

definition due_periodic :: state where
  "due_periodic =
    (case timer_start 1 3 True boot of
       Some (Inr s) \<Rightarrow> s\<lparr>global_ticks := 7\<rparr>
     | _ \<Rightarrow> boot)"

section \<open>Notions used by the claims\<close>

text \<open>The fields of a timer outside its embedded node.\<close>

definition payload :: "timer \<Rightarrow> 64 word \<times> 64 word \<times> nat option \<times> nat option" where
  "payload t = (expiry t, period t, callback t, data t)"

text \<open>Counter, trace and every timer's payload are the same in both states.\<close>

definition same_timers :: "state \<Rightarrow> state \<Rightarrow> bool" where
  "same_timers s s' \<longleftrightarrow>
     global_ticks s' = global_ticks s \<and> fired s' = fired s \<and>
     (\<forall>a. payload (objs s' a) = payload (objs s a))"

text \<open>Timer \<open>t\<close> is registered and is the only member of the dispatcher's queue.\<close>

definition sole :: "addr \<Rightarrow> state \<Rightarrow> bool" where
  "sole t s \<longleftrightarrow>
     head (queues s timer_queue) = Some t \<and> tail (queues s timer_queue) = Some t \<and>
     root (queues s timer_queue) = Some t \<and>
     next' (node (objs s t)) = None \<and> prev (node (objs s t)) = None \<and>
     callback (objs s t) \<noteq> None"

text \<open>
  Measures of the drain loop. \<open>due_fires s a\<close> bounds the firings still due to a periodic
  timer \<open>a\<close> at the current counter; \<open>link_bound\<close> counts the set \<open>prev\<close> links and the
  set head and tail pointers. \<open>drain_ready\<close>: the root is \<open>NULL\<close> when the head is,
  finitely many nodes have a \<open>prev\<close> link, finitely many timers have a period, and the
  counter plus any period in use stays below \<open>2 ^ 64\<close>.
\<close>

definition due_fires :: "state \<Rightarrow> addr \<Rightarrow> nat" where
  "due_fires s a =
    (if period (objs s a) \<noteq> 0 \<and> expiry (objs s a) \<le> global_ticks s
     then (unat (global_ticks s) - unat (expiry (objs s a))) div unat (period (objs s a)) + 1
     else 0)"

definition fires_bound :: "state \<Rightarrow> nat" where
  "fires_bound s = (\<Sum>a | period (objs s a) \<noteq> 0. due_fires s a)"

definition link_bound :: "state \<Rightarrow> nat" where
  "link_bound s =
     card {a. prev (node (objs s a)) \<noteq> None} +
     (if tail (queues s timer_queue) = None then 0 else 1) +
     (if head (queues s timer_queue) = None then 0 else 1)"

definition drain_ready :: "state \<Rightarrow> bool" where
  "drain_ready s \<longleftrightarrow>
     (head (queues s timer_queue) = None \<longrightarrow> root (queues s timer_queue) = None) \<and>
     finite {a. prev (node (objs s a)) \<noteq> None} \<and>
     finite {a. period (objs s a) \<noteq> 0} \<and>
     (\<forall>a. period (objs s a) \<noteq> 0 \<longrightarrow>
          unat (global_ticks s) + unat (period (objs s a)) < 2 ^ 64)"

text \<open>
  The conditions on the state at a call of \<open>timer_increment_tick\<close> under which its drain
  loop ends: those of \<open>drain_ready\<close>, the last one for the counter the call is about to
  store, \<open>global_ticks + 1\<close> in 64-bit arithmetic.
\<close>

definition tick_ready :: "state \<Rightarrow> bool" where
  "tick_ready s \<longleftrightarrow>
     (head (queues s timer_queue) = None \<longrightarrow> root (queues s timer_queue) = None) \<and>
     finite {a. prev (node (objs s a)) \<noteq> None} \<and>
     finite {a. period (objs s a) \<noteq> 0} \<and>
     (\<forall>a. period (objs s a) \<noteq> 0 \<longrightarrow>
          unat (global_ticks s + 1) + unat (period (objs s a)) < 2 ^ 64)"

text \<open>
  \<open>visits s s1\<close>: the drain loop entered in state \<open>s\<close> reaches the head of an iteration
  in state \<open>s1\<close>.
\<close>

inductive visits :: "state \<Rightarrow> state \<Rightarrow> bool" where
  entry: "visits s s"
| iteration:
    "visits s s1 \<Longrightarrow> pq_peek (Some timer_queue) s1 = Some t \<Longrightarrow>
     expiry (objs s1 t) \<le> global_ticks s1 \<Longrightarrow> tick_body t s1 = Inr s2 \<Longrightarrow> visits s s2"

section \<open>Basic facts\<close>

lemmas upd_defs = upd_pq_def upd_timer_def upd_node_def

lemma boot_simps:
  "queues boot = (\<lambda>_. \<lparr>head = None, tail = None, root = None, compare = None\<rparr>)
     (0 := \<lparr>head = None, tail = None, root = None, compare = Some timer_compare\<rparr>)"
  "global_ticks boot = 0"
  "fired boot = []"
  "objs boot = (\<lambda>_. zero_timer)
     (1 := zero_timer\<lparr>callback := Some 0\<rparr>, 2 := zero_timer\<lparr>callback := Some 0\<rparr>,
      3 := zero_timer\<lparr>callback := Some 0\<rparr>)"
  by (simp_all add: boot_def blank_def timer_init_def timer_module_init_def pq_init_def upd_defs
      timer_queue_def zero_timer_def)

lemma upd_node_simps [simp]:
  "queues (upd_node a f s) = queues s"
  "global_ticks (upd_node a f s) = global_ticks s"
  "fired (upd_node a f s) = fired s"
  "objs (upd_node a f s) b = (if b = a then (objs s a)\<lparr>node := f (node (objs s a))\<rparr> else objs s b)"
  by (simp_all add: upd_defs)

lemma upd_pq_simps [simp]:
  "objs (upd_pq p g s) = objs s"
  "global_ticks (upd_pq p g s) = global_ticks s"
  "fired (upd_pq p g s) = fired s"
  "queues (upd_pq p g s) q = (if q = p then g (queues s p) else queues s q)"
  by (simp_all add: upd_defs)

lemma upd_timer_simps [simp]:
  "queues (upd_timer a h s) = queues s"
  "global_ticks (upd_timer a h s) = global_ticks s"
  "fired (upd_timer a h s) = fired s"
  "objs (upd_timer a h s) b = (if b = a then h (objs s a) else objs s b)"
  by (simp_all add: upd_defs)

lemma same_timers_refl [simp]: "same_timers s s"
  by (simp add: same_timers_def)

lemma same_timers_trans: "same_timers s s1 \<Longrightarrow> same_timers s1 s2 \<Longrightarrow> same_timers s s2"
  by (simp add: same_timers_def)

lemma same_timers_fields:
  assumes "same_timers s s'"
  shows "expiry (objs s' a) = expiry (objs s a)" "period (objs s' a) = period (objs s a)"
    "callback (objs s' a) = callback (objs s a)" "data (objs s' a) = data (objs s a)"
    "global_ticks s' = global_ticks s" "fired s' = fired s"
  using assms unfolding same_timers_def payload_def
  by (auto dest: spec [where x = a])

lemma same_timers_upd_node [simp]: "same_timers s (upd_node a f s)"
  by (simp add: same_timers_def payload_def)

lemma same_timers_upd_pq [simp]: "same_timers s (upd_pq p g s)"
  by (simp add: same_timers_def)

lemma same_timers_swap_nodes: "same_timers s (swap_nodes a b s)"
  by (simp add: swap_nodes_def Let_def same_timers_def payload_def)

lemma queues_swap_nodes [simp]: "queues (swap_nodes a b s) = queues s"
  by (simp add: swap_nodes_def Let_def)

lemma same_timers_pq_insert: "pq_insert pq nd s = Inr (rc, s') \<Longrightarrow> same_timers s s'"
  by (auto simp add: pq_insert_def Let_def same_timers_def payload_def
      split: if_splits option.splits)

lemma same_timers_pq_pop: "pq_pop pq s = Inr (r, s') \<Longrightarrow> same_timers s s'"
  by (auto simp add: pq_pop_def Let_def same_timers_def payload_def
      split: if_splits option.splits)

lemma reorder_loop_same_aux:
  "reorder_loop p current s = Some r \<Longrightarrow>
   (case r of Inl f \<Rightarrow> True | Inr s' \<Rightarrow> same_timers s s' \<and> queues s' = queues s)"
proof (induction rule: reorder_loop.raw_induct [rotated 1, consumes 1])
  case (1 rl p current s r)
  show ?case
  proof (cases "pick p (next' (node (objs s current))) current s")
    case (Inl f)
    with 1(2) show ?thesis by auto
  next
    case l1: (Inr l1)
    show ?thesis
    proof (cases "pick p (prev (node (objs s current))) l1 s")
      case (Inl f)
      with 1(2) l1 show ?thesis by auto
    next
      case lg: (Inr largest)
      show ?thesis
      proof (cases "largest = current")
        case True
        with 1(2) l1 lg show ?thesis by auto
      next
        case False
        with 1(2) l1 lg have "rl p current (swap_nodes current largest s) = Some r" by simp
        from 1(1) [OF this] same_timers_swap_nodes [of s current largest]
        show ?thesis
          by (auto split: sum.splits intro: same_timers_trans)
      qed
    qed
  qed
qed

lemma reorder_loop_same:
  "reorder_loop p current s = Some (Inr s') \<Longrightarrow> same_timers s s' \<and> queues s' = queues s"
  using reorder_loop_same_aux [of p current s "Inr s'"] by simp

lemma pq_reorder_same:
  "pq_reorder pq s = Some (Inr s') \<Longrightarrow> same_timers s s' \<and> queues s' = queues s"
  by (auto simp add: pq_reorder_def split: if_splits option.splits dest: reorder_loop_same)

lemma invoke_callback_Inr:
  "invoke_callback t s = Inr s' \<Longrightarrow> s' = s\<lparr>fired := fired s @ [(t, global_ticks s)]\<rparr>"
  by (auto simp add: invoke_callback_def split: option.splits)

lemma tick_body_ticks: "tick_body t s = Inr s' \<Longrightarrow> global_ticks s' = global_ticks s"
  by (auto simp add: tick_body_def Let_def same_timers_def split: sum.splits if_splits
      dest!: same_timers_pq_pop same_timers_pq_insert invoke_callback_Inr)

lemma drain_ticks_aux:
  "drain s = Some r \<Longrightarrow> (case r of Inl f \<Rightarrow> True | Inr s' \<Rightarrow> global_ticks s' = global_ticks s)"
proof (induction rule: drain.raw_induct [rotated 1, consumes 1])
  case (1 dr s r)
  show ?case
  proof (cases "pq_peek (Some timer_queue) s")
    case None
    with 1(2) show ?thesis by auto
  next
    case (Some t)
    show ?thesis
    proof (cases "expiry (objs s t) \<le> global_ticks s")
      case False
      with 1(2) Some show ?thesis by auto
    next
      case True
      show ?thesis
      proof (cases "tick_body t s")
        case (Inl f)
        with 1(2) Some True show ?thesis by auto
      next
        case (Inr s1)
        with 1(2) Some True have "dr s1 = Some r" by simp
        from 1(1) [OF this] tick_body_ticks [OF Inr] show ?thesis
          by (auto split: sum.splits)
      qed
    qed
  qed
qed

lemma drain_ticks: "drain s = Some (Inr s') \<Longrightarrow> global_ticks s' = global_ticks s"
  using drain_ticks_aux [of s "Inr s'"] by simp

lemma timer_increment_tick_ticks:
  "timer_increment_tick s = Some (Inr s') \<Longrightarrow> global_ticks s' = global_ticks s + 1"
  by (auto simp add: timer_increment_tick_def Let_def same_timers_def
      split: option.splits sum.splits dest!: drain_ticks pq_reorder_same)

lemma run_ticks_ticks:
  "run_ticks n s = Some (Inr s') \<Longrightarrow> global_ticks s' = global_ticks s + of_nat n"
proof (induction n arbitrary: s)
  case 0
  then show ?case by simp
next
  case (Suc n)
  then show ?case
    by (auto split: option.splits sum.splits dest!: timer_increment_tick_ticks)
qed

subsection \<open>A timer alone in the queue\<close>

lemma timer_start_empty:
  assumes "head (queues s timer_queue) = None"
  shows "\<exists>s1. timer_start t ticks periodic s = Some (Inr s1) \<and>
           head (queues s1 timer_queue) = Some t \<and> tail (queues s1 timer_queue) = Some t \<and>
           root (queues s1 timer_queue) = Some t \<and>
           next' (node (objs s1 t)) = None \<and> prev (node (objs s1 t)) = None \<and>
           callback (objs s1 t) = callback (objs s t) \<and>
           expiry (objs s1 t) = global_ticks s + ticks \<and>
           period (objs s1 t) = (if periodic then ticks else 0) \<and>
           global_ticks s1 = global_ticks s \<and> fired s1 = fired s"
  using assms
  by (simp add: timer_start_def pq_insert_def pq_reorder_def reorder_loop.simps pick_def Let_def)

lemma tick_empty:
  assumes "root (queues s timer_queue) = None" "head (queues s timer_queue) = None"
  shows "timer_increment_tick s = Some (Inr (s\<lparr>global_ticks := global_ticks s + 1\<rparr>))"
  using assms
  by (simp add: timer_increment_tick_def drain.simps pq_peek_def pq_reorder_def Let_def)

lemma tick_idle:
  assumes "sole t s" "\<not> expiry (objs s t) \<le> global_ticks s + 1"
  shows "timer_increment_tick s = Some (Inr (s\<lparr>global_ticks := global_ticks s + 1\<rparr>))"
  using assms
  by (simp add: sole_def timer_increment_tick_def drain.simps pq_peek_def pq_reorder_def
      reorder_loop.simps pick_def Let_def)

lemma tick_fire_oneshot:
  assumes "sole t s" "expiry (objs s t) \<le> global_ticks s + 1" "period (objs s t) = 0"
  shows "\<exists>s'. timer_increment_tick s = Some (Inr s') \<and>
           root (queues s' timer_queue) = None \<and> head (queues s' timer_queue) = None \<and>
           global_ticks s' = global_ticks s + 1 \<and>
           fired s' = fired s @ [(t, global_ticks s + 1)]"
  using assms
  by (simp add: sole_def timer_increment_tick_def drain.simps [of "s\<lparr>global_ticks := global_ticks s + 1\<rparr>"]
      pq_peek_def tick_body_def pq_pop_def invoke_callback_def Let_def)
    (auto simp add: drain.simps pq_peek_def pq_reorder_def)

lemma tick_fire_periodic:
  assumes "sole t s" "expiry (objs s t) \<le> global_ticks s + 1" "period (objs s t) \<noteq> 0"
    "\<not> expiry (objs s t) + period (objs s t) \<le> global_ticks s + 1"
  shows "\<exists>s'. timer_increment_tick s = Some (Inr s') \<and> sole t s' \<and>
           expiry (objs s' t) = expiry (objs s t) + period (objs s t) \<and>
           period (objs s' t) = period (objs s t) \<and>
           global_ticks s' = global_ticks s + 1 \<and>
           fired s' = fired s @ [(t, global_ticks s + 1)]"
  using assms
  by (simp add: sole_def timer_increment_tick_def drain.simps [of "s\<lparr>global_ticks := global_ticks s + 1\<rparr>"]
      pq_peek_def tick_body_def pq_pop_def pq_insert_def invoke_callback_def Let_def)
    (auto simp add: drain.simps pq_peek_def pq_reorder_def reorder_loop.simps pick_def pq_insert_def Let_def)

lemma run_ticks_add: "run_ticks (a + b) s = andthen (run_ticks a s) (run_ticks b)"
  by (induction a arbitrary: s) (auto simp add: andthen_def split: option.splits sum.splits)

lemma run_ticks_empty:
  assumes "root (queues s timer_queue) = None" "head (queues s timer_queue) = None"
  shows "\<exists>s'. run_ticks k s = Some (Inr s') \<and> fired s' = fired s \<and>
           root (queues s' timer_queue) = None \<and> head (queues s' timer_queue) = None"
  using assms
proof (induction k arbitrary: s)
  case 0
  then show ?case by simp
next
  case (Suc k)
  from Suc.prems have "timer_increment_tick s = Some (Inr (s\<lparr>global_ticks := global_ticks s + 1\<rparr>))"
    by (rule tick_empty)
  moreover from Suc.prems
  have "\<exists>s'. run_ticks k (s\<lparr>global_ticks := global_ticks s + 1\<rparr>) = Some (Inr s') \<and>
          fired s' = fired (s\<lparr>global_ticks := global_ticks s + 1\<rparr>) \<and>
          root (queues s' timer_queue) = None \<and> head (queues s' timer_queue) = None"
    by (intro Suc.IH) simp_all
  ultimately show ?case by auto
qed

lemma unat_succ: "unat (g :: 64 word) + 1 < 2 ^ 64 \<Longrightarrow> unat (g + 1) = unat g + 1"
  by (simp add: unat_word_ariths)

lemma sole_bump: "sole t s \<Longrightarrow> sole t (s\<lparr>global_ticks := g\<rparr>)"
  by (simp add: sole_def)

lemma oneshot_wait:
  assumes "sole t s" "unat (expiry (objs s t)) = unat (global_ticks s) + r" "k < r"
  shows "\<exists>s'. run_ticks k s = Some (Inr s') \<and> sole t s' \<and>
           objs s' = objs s \<and> global_ticks s' = global_ticks s + of_nat k \<and>
           unat (global_ticks s') = unat (global_ticks s) + k \<and>
           fired s' = fired s"
  using assms
proof (induction k arbitrary: s r)
  case 0
  then show ?case by simp
next
  case (Suc k)
  let ?s1 = "s\<lparr>global_ticks := global_ticks s + 1\<rparr>"
  have lt: "unat (expiry (objs s t)) < 2 ^ 64"
    using unsigned_less [of "expiry (objs s t)"] by simp
  with Suc.prems have u: "unat (global_ticks s + 1) = unat (global_ticks s) + 1"
    by (intro unat_succ) simp
  with Suc.prems have "\<not> expiry (objs s t) \<le> global_ticks s + 1"
    by (simp add: word_le_nat_alt)
  with Suc.prems have step: "timer_increment_tick s = Some (Inr ?s1)"
    by (intro tick_idle) simp_all
  have "\<exists>s'. run_ticks k ?s1 = Some (Inr s') \<and> sole t s' \<and>
           objs s' = objs ?s1 \<and> global_ticks s' = global_ticks ?s1 + of_nat k \<and>
           unat (global_ticks s') = unat (global_ticks ?s1) + k \<and>
           fired s' = fired ?s1"
    using Suc.prems u by (intro Suc.IH [where r = "r - 1"]) (simp_all add: sole_bump)
  with step u show ?case by (auto simp add: algebra_simps)
qed

lemma unat_plus: "unat (a :: 64 word) + unat b < 2 ^ 64 \<Longrightarrow> unat (a + b) = unat a + unat b"
  by (simp add: unat_word_ariths)

lemma timer_start_sole:
  assumes "head (queues s timer_queue) = None" "callback (objs s t) \<noteq> None"
  shows "\<exists>s1. timer_start t ticks periodic s = Some (Inr s1) \<and> sole t s1 \<and>
           expiry (objs s1 t) = global_ticks s + ticks \<and>
           period (objs s1 t) = (if periodic then ticks else 0) \<and>
           global_ticks s1 = global_ticks s \<and> fired s1 = fired s"
  using timer_start_empty [OF assms(1), of t ticks periodic] assms(2)
  by (auto simp add: sole_def)

lemma periodic_run:
  assumes "sole t s" "period (objs s t) = p" "1 \<le> unat p"
    "unat (expiry (objs s t)) = unat (global_ticks s) + r" "1 \<le> r" "r \<le> unat p"
    "unat (global_ticks s) + k + unat p < 2 ^ 64"
  shows "\<exists>s'. run_ticks k s = Some (Inr s') \<and>
           fired s' = fired s @ map (\<lambda>i. (t, expiry (objs s t) + of_nat i * p))
                                  [0..<(k + unat p - r) div unat p]"
  using assms
proof (induction k arbitrary: s r)
  case 0
  then show ?case by simp
next
  case (Suc k)
  let ?e = "expiry (objs s t)" and ?g = "global_ticks s"
  have u: "unat (?g + 1) = unat ?g + 1"
    using Suc.prems by (intro unat_succ) simp
  show ?case
  proof (cases "r = 1")
    case True
    with Suc.prems u have eq: "?g + 1 = ?e"
      by (simp add: word_unat_eq_iff)
    have ep: "unat (?e + p) = unat ?e + unat p"
      using Suc.prems True by (intro unat_plus) simp
    have "\<not> ?e + period (objs s t) \<le> ?g + 1"
      using Suc.prems ep eq by (simp add: word_le_nat_alt)
    moreover have "period (objs s t) \<noteq> 0"
      using Suc.prems by auto
    moreover have "?e \<le> ?g + 1" using eq by simp
    ultimately obtain s1 where s1: "timer_increment_tick s = Some (Inr s1)" "sole t s1"
      "expiry (objs s1 t) = ?e + p" "period (objs s1 t) = p"
      "global_ticks s1 = ?g + 1" "fired s1 = fired s @ [(t, ?g + 1)]"
      using tick_fire_periodic [OF Suc.prems(1)] Suc.prems(2) by auto
    have "\<exists>s'. run_ticks k s1 = Some (Inr s') \<and>
           fired s' = fired s1 @ map (\<lambda>i. (t, expiry (objs s1 t) + of_nat i * p))
                                  [0..<(k + unat p - unat p) div unat p]"
      using s1 Suc.prems True ep u eq
      by (intro Suc.IH [where r = "unat p"]) simp_all
    then obtain s' where s': "run_ticks k s1 = Some (Inr s')"
      "fired s' = fired s1 @ map (\<lambda>i. (t, ?e + p + of_nat i * p)) [0..<k div unat p]"
      using s1 by auto
    have "unat p \<noteq> 0" using Suc.prems(3) by simp
    then have d: "(Suc k + unat p - r) div unat p = Suc (k div unat p)"
      using True by (simp add: div_add_self2)
    show ?thesis
      unfolding d map_upt_Suc
      using s1 s' eq by (simp add: algebra_simps)
  next
    case False
    with Suc.prems have r: "2 \<le> r" by simp
    with Suc.prems u have "\<not> ?e \<le> ?g + 1"
      by (simp add: word_le_nat_alt)
    with Suc.prems have step: "timer_increment_tick s = Some (Inr (s\<lparr>global_ticks := ?g + 1\<rparr>))"
      by (intro tick_idle) simp_all
    let ?s1 = "s\<lparr>global_ticks := ?g + 1\<rparr>"
    have "\<exists>s'. run_ticks k ?s1 = Some (Inr s') \<and>
           fired s' = fired ?s1 @ map (\<lambda>i. (t, expiry (objs ?s1 t) + of_nat i * p))
                                  [0..<(k + unat p - (r - 1)) div unat p]"
      using Suc.prems r u
      by (intro Suc.IH [where r = "r - 1"]) (simp_all add: sole_bump)
    moreover have "k + unat p - (r - 1) = Suc k + unat p - r"
      using r Suc.prems by simp
    ultimately show ?thesis using step by auto
  qed
qed

lemma run_ticks_numeral:
  "run_ticks (numeral k) s =
    (case timer_increment_tick s of
       None \<Rightarrow> None
     | Some (Inl f) \<Rightarrow> Some (Inl f)
     | Some (Inr s') \<Rightarrow> run_ticks (pred_numeral k) s')"
  by (simp add: numeral_eq_Suc)

text \<open>
  A timer armed periodic with period \<open>p \<ge> 1\<close> into an empty queue, the counter \<open>C\<close> at
  the arming being such that \<open>C + k0 + N * p + p < 2 ^ 64\<close> (the deadline set by the last
  firing of the window does not wrap either): the calls \<open>k0 + 1\<close> to \<open>k0 + N * p\<close> of
  \<open>timer_increment_tick\<close> add exactly \<open>N\<close> entries to the trace, all of that timer.
\<close>

lemma periodic_alone_window:
  assumes "head (queues s timer_queue) = None" "callback (objs s t) \<noteq> None"
    "1 \<le> unat p" "unat (global_ticks s) + k0 + N * unat p + unat p < 2 ^ 64"
  shows "\<exists>xs ys.
           observe fired (andthen (timer_start t p True s) (run_ticks k0)) =
             Some (Inr (fired s @ xs)) \<and>
           observe fired (andthen (timer_start t p True s) (run_ticks (k0 + N * unat p))) =
             Some (Inr (fired s @ xs @ ys)) \<and>
           map fst ys = replicate N t"
proof -
  from timer_start_sole [OF assms(1,2), of p True]
  obtain s1 where s1: "timer_start t p True s = Some (Inr s1)" "sole t s1"
    "expiry (objs s1 t) = global_ticks s + p" "period (objs s1 t) = p"
    "global_ticks s1 = global_ticks s" "fired s1 = fired s"
    by (elim exE conjE) simp
  from assms(4) have e: "unat (expiry (objs s1 t)) = unat (global_ticks s1) + unat p"
    by (simp add: s1 unat_plus)
  let ?f = "\<lambda>i. (t, expiry (objs s1 t) + of_nat i * p)"
  from periodic_run [OF s1(2) s1(4) assms(3) e assms(3), of k0] assms(4) s1(5)
  obtain sa where sa: "run_ticks k0 s1 = Some (Inr sa)"
    "fired sa = fired s1 @ map ?f [0..<k0 div unat p]"
    by auto
  from periodic_run [OF s1(2) s1(4) assms(3) e assms(3), of "k0 + N * unat p"] assms(4) s1(5)
  obtain sb where sb: "run_ticks (k0 + N * unat p) s1 = Some (Inr sb)"
    "fired sb = fired s1 @ map ?f [0..<(k0 + N * unat p) div unat p]"
    by auto
  have "(k0 + N * unat p) div unat p = k0 div unat p + N"
    using assms(3) by simp
  moreover have "[0..<k0 div unat p + N] = [0..<k0 div unat p] @ [k0 div unat p..<k0 div unat p + N]"
    by (rule upt_add_eq_append) simp
  ultimately have "fired sb = fired s1 @ map ?f [0..<k0 div unat p] @ map ?f [k0 div unat p..<k0 div unat p + N]"
    using sb(2) by simp
  moreover have "map fst (map ?f [k0 div unat p..<k0 div unat p + N]) = replicate N t"
    by (simp add: map_replicate_const comp_def)
  ultimately show ?thesis
    using s1 sa sb by (auto simp add: andthen_def observe_def)
qed

subsection \<open>The drain loop ends\<close>

lemma same_timers_due_fires: "same_timers s s' \<Longrightarrow> due_fires s' a = due_fires s a"
  by (simp add: due_fires_def same_timers_fields)

lemma same_timers_fires_bound: "same_timers s s' \<Longrightarrow> fires_bound s' = fires_bound s"
  by (simp add: fires_bound_def same_timers_due_fires same_timers_fields)

lemma due_fires_fired [simp]: "due_fires (s\<lparr>fired := x\<rparr>) a = due_fires s a"
  by (simp add: due_fires_def cong: if_cong)

lemma fires_bound_fired [simp]: "fires_bound (s\<lparr>fired := x\<rparr>) = fires_bound s"
  by (simp add: fires_bound_def)

lemma link_bound_fired [simp]: "link_bound (s\<lparr>fired := x\<rparr>) = link_bound s"
  by (simp add: link_bound_def)

lemma pq_pop_links:
  assumes "pq_pop (Some timer_queue) s = Inr (r, s1)" "head (queues s timer_queue) \<noteq> None"
    "finite {a. prev (node (objs s a)) \<noteq> None}"
  shows "link_bound s1 < link_bound s"
    and "finite {a. prev (node (objs s1 a)) \<noteq> None}"
    and "head (queues s1 timer_queue) = None \<longrightarrow> root (queues s1 timer_queue) = None"
proof -
  let ?S = "{a. prev (node (objs s a)) \<noteq> None}"
  show "head (queues s1 timer_queue) = None \<longrightarrow> root (queues s1 timer_queue) = None"
    using assms(1,2)
    by (auto simp add: pq_pop_def Let_def split: if_splits option.splits)
  show "link_bound s1 < link_bound s"
  proof (cases "head (queues s timer_queue) = tail (queues s timer_queue)")
    case True
    with assms(1,2) show ?thesis
      by (auto simp add: pq_pop_def Let_def link_bound_def)
  next
    case False
    with assms(1,2) obtain T where T: "tail (queues s timer_queue) = Some T"
      by (auto simp add: pq_pop_def Let_def split: option.splits)
    have S1: "{a. prev (node (objs s1 a)) \<noteq> None} = ?S - {T}"
      and t1: "tail (queues s1 timer_queue) = prev (node (objs s T))"
      and h1: "head (queues s1 timer_queue) = head (queues s timer_queue)"
      using assms(1,2) False T
      by (auto simp add: pq_pop_def Let_def split: option.splits if_splits)
    show ?thesis
    proof (cases "prev (node (objs s T))")
      case None
      then have "?S - {T} = ?S" by auto
      with S1 t1 h1 None T show ?thesis by (simp add: link_bound_def)
    next
      case (Some pv)
      then have "T \<in> ?S" by simp
      with assms(3) have "card (?S - {T}) < card ?S"
        by (intro card_Diff1_less)
      with S1 t1 h1 Some T show ?thesis by (simp add: link_bound_def)
    qed
  qed
  show "finite {a. prev (node (objs s1 a)) \<noteq> None}"
  proof (rule finite_subset [OF _ assms(3)])
    show "{a. prev (node (objs s1 a)) \<noteq> None} \<subseteq> ?S"
      using assms(1)
      by (auto simp add: pq_pop_def Let_def split: option.splits if_splits)
  qed
qed

lemma pq_insert_ready:
  assumes "pq_insert (Some timer_queue) (Some n) s = Inr (rc, s1)"
    "finite {a. prev (node (objs s a)) \<noteq> None}"
  shows "finite {a. prev (node (objs s1 a)) \<noteq> None}"
    and "head (queues s1 timer_queue) \<noteq> None"
proof -
  show "head (queues s1 timer_queue) \<noteq> None"
    using assms(1) by (auto simp add: pq_insert_def Let_def split: option.splits if_splits)
  have "{a. prev (node (objs s1 a)) \<noteq> None} \<subseteq> insert n {a. prev (node (objs s a)) \<noteq> None}"
    using assms(1) by (auto simp add: pq_insert_def Let_def split: option.splits if_splits)
  then show "finite {a. prev (node (objs s1 a)) \<noteq> None}"
    using assms(2) by (meson finite_insert finite_subset)
qed

lemma due_fires_decreases:
  assumes "period (objs s t) \<noteq> 0" "expiry (objs s t) \<le> global_ticks s"
    "unat (global_ticks s) + unat (period (objs s t)) < 2 ^ 64"
  shows "due_fires (upd_timer t (\<lambda>x. x\<lparr>expiry := expiry x + period x\<rparr>) s) t < due_fires s t"
proof -
  let ?e = "expiry (objs s t)" and ?p = "period (objs s t)" and ?g = "global_ticks s"
  have le: "unat ?e \<le> unat ?g" using assms(2) by (simp add: word_le_nat_alt)
  have p: "0 < unat ?p" using assms(1) by (simp add: unat_gt_0)
  have ep: "unat (?e + ?p) = unat ?e + unat ?p"
    using le assms(3) by (intro unat_plus) simp
  show ?thesis
  proof (cases "?e + ?p \<le> ?g")
    case True
    then have "unat ?p \<le> unat ?g - unat ?e"
      using ep by (simp add: word_le_nat_alt)
    with p have "(unat ?g - unat ?e) div unat ?p = Suc ((unat ?g - unat ?e - unat ?p) div unat ?p)"
      by (rule le_div_geq)
    then have "(unat ?g - unat ?e - unat ?p) div unat ?p < (unat ?g - unat ?e) div unat ?p"
      by simp
    with True assms(1,2) ep show ?thesis
      by (simp add: due_fires_def)
  next
    case False
    with assms(1,2) show ?thesis by (simp add: due_fires_def)
  qed
qed

lemma fires_bound_decreases:
  assumes "period (objs s t) \<noteq> 0" "expiry (objs s t) \<le> global_ticks s"
    "unat (global_ticks s) + unat (period (objs s t)) < 2 ^ 64"
    "finite {a. period (objs s a) \<noteq> 0}"
  shows "fires_bound (upd_timer t (\<lambda>x. x\<lparr>expiry := expiry x + period x\<rparr>) s) < fires_bound s"
proof -
  let ?s' = "upd_timer t (\<lambda>x. x\<lparr>expiry := expiry x + period x\<rparr>) s"
  have P: "{a. period (objs ?s' a) \<noteq> 0} = {a. period (objs s a) \<noteq> 0}"
    by auto
  have other: "due_fires ?s' a = due_fires s a" if "a \<noteq> t" for a
    using that by (simp add: due_fires_def)
  have "(\<Sum>a | period (objs s a) \<noteq> 0. due_fires ?s' a) < (\<Sum>a | period (objs s a) \<noteq> 0. due_fires s a)"
  proof (rule sum_strict_mono_ex1 [OF assms(4)])
    show "\<forall>a\<in>{a. period (objs s a) \<noteq> 0}. due_fires ?s' a \<le> due_fires s a"
    proof
      fix a
      show "due_fires ?s' a \<le> due_fires s a"
        using other [of a] due_fires_decreases [OF assms(1-3)]
        by (cases "a = t") simp_all
    qed
    show "\<exists>a\<in>{a. period (objs s a) \<noteq> 0}. due_fires ?s' a < due_fires s a"
      using due_fires_decreases [OF assms(1-3)] assms(1) by blast
  qed
  then show ?thesis by (simp only: fires_bound_def P)
qed

lemma tick_body_decreases:
  assumes "drain_ready s" "root (queues s timer_queue) = Some t"
    "expiry (objs s t) \<le> global_ticks s" "tick_body t s = Inr s'"
  shows "drain_ready s' \<and>
         (fires_bound s' < fires_bound s \<or>
          fires_bound s' = fires_bound s \<and> link_bound s' < link_bound s)"
proof -
  from assms(1,2) have hd: "head (queues s timer_queue) \<noteq> None"
    and fin: "finite {a. prev (node (objs s a)) \<noteq> None}"
    and finP: "finite {a. period (objs s a) \<noteq> 0}"
    and nw: "\<And>a. period (objs s a) \<noteq> 0 \<Longrightarrow>
               unat (global_ticks s) + unat (period (objs s a)) < 2 ^ 64"
    by (auto simp add: drain_ready_def)
  from assms(4) obtain r s1 where pop: "pq_pop (Some timer_queue) s = Inr (r, s1)"
    by (auto simp add: tick_body_def split: sum.splits)
  note st1 = same_timers_pq_pop [OF pop]
  note l1 = pq_pop_links [OF pop hd fin]
  let ?s2 = "s1\<lparr>fired := fired s1 @ [(t, global_ticks s1)]\<rparr>"
  from assms(4) pop have cb: "invoke_callback t s1 = Inr ?s2"
    by (auto simp add: tick_body_def split: sum.splits dest: invoke_callback_Inr)
  have per: "period (objs ?s2 a) = period (objs s a)"
    and ex: "expiry (objs ?s2 a) = expiry (objs s a)"
    and gt: "global_ticks ?s2 = global_ticks s" for a
    using same_timers_fields [OF st1] by simp_all
  have fb2: "fires_bound ?s2 = fires_bound s"
    using same_timers_fires_bound [OF st1] by simp
  have lb2: "link_bound ?s2 < link_bound s"
    using l1(1) by simp
  have rdy2: "drain_ready ?s2"
    using l1(2,3) finP nw per gt by (simp add: drain_ready_def)
  show ?thesis
  proof (cases "period (objs s t) = 0")
    case True
    with assms(4) pop cb per have "s' = ?s2"
      by (simp add: tick_body_def)
    with fb2 lb2 rdy2 show ?thesis by simp
  next
    case False
    let ?s3 = "upd_timer t (\<lambda>x. x\<lparr>expiry := expiry x + period x\<rparr>) ?s2"
    from False assms(4) pop cb per obtain rc where
      ins: "pq_insert (Some timer_queue) (Some t) ?s3 = Inr (rc, s')"
      by (auto simp add: tick_body_def Let_def split: sum.splits)
    note st3 = same_timers_pq_insert [OF ins]
    have P3: "{a. period (objs ?s3 a) \<noteq> 0} = {a. period (objs s a) \<noteq> 0}"
      using per by auto
    have "fires_bound ?s3 < fires_bound ?s2"
      using False assms(3) nw [of t] finP per ex gt
      by (intro fires_bound_decreases) simp_all
    then have fb: "fires_bound s' < fires_bound s"
      using same_timers_fires_bound [OF st3] fb2 by simp
    have "{a. prev (node (objs ?s3 a)) \<noteq> None} = {a. prev (node (objs s1 a)) \<noteq> None}"
      by auto
    with l1(2) have "finite {a. prev (node (objs ?s3 a)) \<noteq> None}"
      by (simp only:)
    from pq_insert_ready [OF ins this]
    have "finite {a. prev (node (objs s' a)) \<noteq> None}" "head (queues s' timer_queue) \<noteq> None"
      by simp_all
    moreover have "period (objs s' a) = period (objs s a)"
      "global_ticks s' = global_ticks s" for a
      using same_timers_fields [OF st3] per gt by simp_all
    ultimately have "drain_ready s'"
      using finP nw by (auto simp add: drain_ready_def)
    with fb show ?thesis by simp
  qed
qed

lemma drain_ends:
  assumes "drain_ready s"
  shows "\<exists>r. drain s = Some r"
  using assms
proof (induction s rule: wf_induct_rule [OF wf_inv_image [OF wf_lex_prod [OF wf_less_than wf_less_than],
        where f = "\<lambda>s. (fires_bound s, link_bound s)"]])
  case (1 s)
  show ?case
  proof (cases "pq_peek (Some timer_queue) s")
    case None
    then show ?thesis by (subst drain.simps) simp
  next
    case (Some t)
    then have rt: "root (queues s timer_queue) = Some t"
      by (simp add: pq_peek_def split: if_splits)
    show ?thesis
    proof (cases "expiry (objs s t) \<le> global_ticks s")
      case False
      with Some show ?thesis by (subst drain.simps) simp
    next
      case True
      show ?thesis
      proof (cases "tick_body t s")
        case (Inl f)
        with Some True show ?thesis by (subst drain.simps) simp
      next
        case (Inr s')
        from tick_body_decreases [OF "1.prems" rt True Inr]
        have "\<exists>r. drain s' = Some r"
          by (intro "1.IH") auto
        with Some True Inr show ?thesis by (subst drain.simps) simp
      qed
    qed
  qed
qed

lemma tick_ready_drain_ready:
  "tick_ready s \<Longrightarrow> drain_ready (s\<lparr>global_ticks := global_ticks s + 1\<rparr>)"
  by (simp add: tick_ready_def drain_ready_def)

lemma visits_drain_ready:
  assumes "visits s s1" "drain_ready s"
  shows "drain_ready s1"
  using assms
proof (induction rule: visits.induct)
  case (entry s)
  then show ?case .
next
  case (iteration s s1 t s2)
  then have "drain_ready s1" by simp
  moreover from iteration(2) have "root (queues s1 timer_queue) = Some t"
    by (simp add: pq_peek_def split: if_splits)
  ultimately show ?case
    using tick_body_decreases [of s1 t s2] iteration(3,4) by simp
qed

lemma tick_body_iteration:
  assumes "drain_ready s" "pq_peek (Some timer_queue) s = Some t"
    "expiry (objs s t) \<le> global_ticks s" "tick_body t s = Inr s'"
  shows "\<exists>popped s1.
           pq_pop (Some timer_queue) s = Inr (popped, s1) \<and>
           (if period (objs s t) = 0
            then s' = s1\<lparr>fired := fired s1 @ [(t, global_ticks s1)]\<rparr>
            else (\<exists>rc. pq_insert (Some timer_queue) (Some t)
                         (upd_timer t (\<lambda>x. x\<lparr>expiry := expiry x + period x\<rparr>)
                            (s1\<lparr>fired := fired s1 @ [(t, global_ticks s1)]\<rparr>)) = Inr (rc, s')) \<and>
                 period (objs s' t) = period (objs s t) \<and>
                 unat (expiry (objs s' t)) =
                   unat (expiry (objs s t)) + unat (period (objs s t)) \<and>
                 expiry (objs s t) < expiry (objs s' t))"
proof -
  from assms(4) obtain r s1 where pop: "pq_pop (Some timer_queue) s = Inr (r, s1)"
    by (auto simp add: tick_body_def split: sum.splits)
  note st1 = same_timers_fields [OF same_timers_pq_pop [OF pop]]
  let ?s2 = "s1\<lparr>fired := fired s1 @ [(t, global_ticks s1)]\<rparr>"
  from assms(4) pop have cb: "invoke_callback t s1 = Inr ?s2"
    by (auto simp add: tick_body_def split: sum.splits dest: invoke_callback_Inr)
  show ?thesis
  proof (cases "period (objs s t) = 0")
    case True
    with assms(4) pop cb st1(2) [of t] have "s' = ?s2" by (simp add: tick_body_def)
    with pop True show ?thesis by simp
  next
    case False
    let ?s3 = "upd_timer t (\<lambda>x. x\<lparr>expiry := expiry x + period x\<rparr>) ?s2"
    from False assms(4) pop cb st1(2) [of t] obtain rc where
      ins: "pq_insert (Some timer_queue) (Some t) ?s3 = Inr (rc, s')"
      by (auto simp add: tick_body_def Let_def split: sum.splits)
    note st3 = same_timers_fields [OF same_timers_pq_insert [OF ins]]
    have e: "expiry (objs s' t) = expiry (objs s t) + period (objs s t)"
      and p: "period (objs s' t) = period (objs s t)"
      using st3(1,2) [of t] st1(1,2) [of t] by simp_all
    from assms(1) False have "unat (global_ticks s) + unat (period (objs s t)) < 2 ^ 64"
      by (simp add: drain_ready_def)
    moreover from assms(3) have "unat (expiry (objs s t)) \<le> unat (global_ticks s)"
      by (simp add: word_le_nat_alt)
    ultimately have u: "unat (expiry (objs s t) + period (objs s t)) =
        unat (expiry (objs s t)) + unat (period (objs s t))"
      by (intro unat_plus) simp
    moreover from False have "0 < unat (period (objs s t))"
      by (simp add: unat_gt_0)
    ultimately have "expiry (objs s t) < expiry (objs s' t)"
      using e by (simp add: word_less_nat_alt)
    with False e p u pop ins show ?thesis by auto
  qed
qed

text \<open>The queue functions keep the root \<open>NULL\<close> whenever the head is.\<close>

lemma root_null_with_head_kept:
  "root (queues (snd (pq_init (Some p) (Some c) s)) p) = None"
  "pq_insert (Some p) (Some n) s = Inr (rc, s1) \<Longrightarrow> head (queues s1 p) \<noteq> None"
  "pq_pop (Some p) s = Inr (r, s2) \<Longrightarrow>
     (head (queues s p) = None \<longrightarrow> root (queues s p) = None) \<Longrightarrow>
     (head (queues s2 p) = None \<longrightarrow> root (queues s2 p) = None)"
  by (auto simp add: pq_init_def pq_insert_def pq_pop_def Let_def
      split: option.splits if_splits)

subsection \<open>Drain loops that never end\<close>

lemma drain_max_aux:
  "drain s = Some r \<Longrightarrow> \<not> (sole t s \<and> period (objs s t) \<noteq> 0 \<and> global_ticks s = - 1)"
proof (induction rule: drain.raw_induct [rotated 1, consumes 1])
  case (1 dr s r)
  show ?case
  proof
    assume I: "sole t s \<and> period (objs s t) \<noteq> 0 \<and> global_ticks s = - 1"
    then obtain s' where s': "tick_body t s = Inr s'"
      "sole t s' \<and> period (objs s' t) \<noteq> 0 \<and> global_ticks s' = - 1"
      by (auto simp add: sole_def tick_body_def pq_pop_def invoke_callback_def pq_insert_def Let_def)
    from I have "pq_peek (Some timer_queue) s = Some t" "expiry (objs s t) \<le> global_ticks s"
      by (simp_all add: sole_def pq_peek_def)
    with 1(2) s'(1) have "dr s' = Some r" by simp
    from 1(1) [OF this] s'(2) show False by simp
  qed
qed

lemma drain_at_max:
  assumes "sole t s" "period (objs s t) \<noteq> 0" "global_ticks s = - 1"
  shows "drain s = None"
  using drain_max_aux [of s _ t] assms by (cases "drain s") auto

lemma drain_stale_aux:
  "drain s = Some r \<Longrightarrow>
   \<not> (head (queues s timer_queue) = None \<and> root (queues s timer_queue) = Some t \<and>
      period (objs s t) = 0 \<and> expiry (objs s t) \<le> global_ticks s \<and>
      callback (objs s t) \<noteq> None)"
proof (induction rule: drain.raw_induct [rotated 1, consumes 1])
  case (1 dr s r)
  show ?case
  proof
    assume I: "head (queues s timer_queue) = None \<and> root (queues s timer_queue) = Some t \<and>
      period (objs s t) = 0 \<and> expiry (objs s t) \<le> global_ticks s \<and>
      callback (objs s t) \<noteq> None"
    let ?s' = "s\<lparr>fired := fired s @ [(t, global_ticks s)]\<rparr>"
    from I have s': "tick_body t s = Inr ?s'"
      by (auto simp add: tick_body_def pq_pop_def invoke_callback_def Let_def)
    from I have "pq_peek (Some timer_queue) s = Some t"
      by (simp add: pq_peek_def)
    with 1(2) s' I have "dr ?s' = Some r" by simp
    from 1(1) [OF this] I show False by simp
  qed
qed

lemma drain_stale:
  assumes "head (queues s timer_queue) = None" "root (queues s timer_queue) = Some t"
    "period (objs s t) = 0" "expiry (objs s t) \<le> global_ticks s" "callback (objs s t) \<noteq> None"
  shows "drain s = None"
  using drain_stale_aux [of s _ t] assms by (cases "drain s") auto

lemma at_wrap_sole:
  "sole 1 at_wrap" "period (objs at_wrap 1) = 1" "expiry (objs at_wrap 1) = - 1"
  "global_ticks at_wrap = - 2"
  using timer_start_sole [of "boot\<lparr>global_ticks := - 2\<rparr>" 1 1 True]
  by (auto simp add: at_wrap_def boot_simps timer_queue_def)

lemma due_periodic_simps:
  "queues due_periodic timer_queue =
     \<lparr>head = Some 1, tail = Some 1, root = Some 1, compare = Some timer_compare\<rparr>"
  "objs due_periodic =
     (\<lambda>_. zero_timer)
     (1 := zero_timer\<lparr>callback := Some 0, expiry := 3, period := 3\<rparr>,
      2 := zero_timer\<lparr>callback := Some 0\<rparr>, 3 := zero_timer\<lparr>callback := Some 0\<rparr>)"
  "global_ticks due_periodic = 7" "fired due_periodic = []"
  by (auto simp add: due_periodic_def timer_start_def pq_insert_def pq_reorder_def
      reorder_loop.simps pick_def boot_simps timer_queue_def Let_def zero_timer_def fun_eq_iff)

subsection \<open>The sift of \<open>pq_reorder\<close>\<close>

lemma reorder_loop_step:
  assumes "pick p (next' (node (objs s current))) current s = Inr l1"
    "pick p (prev (node (objs s current))) l1 s = Inr largest"
  shows "reorder_loop p current s =
           (if largest = current then Some (Inr s)
            else reorder_loop p current (swap_nodes current largest s))"
  using assms by (subst reorder_loop.simps) simp

lemma swap_nodes_links:
  assumes "a \<noteq> b"
  shows "next' (node (objs (swap_nodes a b s) a)) = next' (node (objs s b))"
    "prev (node (objs (swap_nodes a b s) a)) = prev (node (objs s b))"
    "next' (node (objs (swap_nodes a b s) b)) = next' (node (objs s a))"
    "prev (node (objs (swap_nodes a b s) b)) = prev (node (objs s a))"
    "x \<noteq> a \<Longrightarrow> x \<noteq> b \<Longrightarrow> objs (swap_nodes a b s) x = objs s x"
  using assms by (simp_all add: swap_nodes_def Let_def)

lemma reorder_loop_exit_aux:
  "reorder_loop p current s = Some r \<Longrightarrow>
   (case r of
      Inl f \<Rightarrow> True
    | Inr s' \<Rightarrow>
        (\<exists>l1. pick p (next' (node (objs s' current))) current s' = Inr l1 \<and>
              pick p (prev (node (objs s' current))) l1 s' = Inr current))"
proof (induction rule: reorder_loop.raw_induct [rotated 1, consumes 1])
  case (1 rl p current s r)
  show ?case
  proof (cases "pick p (next' (node (objs s current))) current s")
    case (Inl f)
    with 1(2) show ?thesis by auto
  next
    case l1: (Inr l1)
    show ?thesis
    proof (cases "pick p (prev (node (objs s current))) l1 s")
      case (Inl f)
      with 1(2) l1 show ?thesis by auto
    next
      case lg: (Inr largest)
      show ?thesis
      proof (cases "largest = current")
        case True
        with 1(2) l1 lg show ?thesis by auto
      next
        case False
        with 1(2) l1 lg have "rl p current (swap_nodes current largest s) = Some r" by simp
        from 1(1) [OF this] show ?thesis .
      qed
    qed
  qed
qed

lemma reorder_loop_exit:
  assumes "reorder_loop p r s = Some (Inr s')" "compare (queues s p) = Some c"
    "\<forall>h x y. 0 < c h x y \<longrightarrow> \<not> 0 < c h y x" "n \<noteq> r"
    "next' (node (objs s' r)) = Some n \<or> prev (node (objs s' r)) = Some n"
  shows "\<not> 0 < c (objs s') n r"
proof -
  from reorder_loop_exit_aux [OF assms(1)]
  obtain l1 where l1: "pick p (next' (node (objs s' r))) r s' = Inr l1"
    and lg: "pick p (prev (node (objs s' r))) l1 s' = Inr r"
    by auto
  from reorder_loop_same [OF assms(1)] assms(2)
  have c: "compare (queues s' p) = Some c" by simp
  show ?thesis
  proof
    assume pos: "0 < c (objs s') n r"
    from assms(5) show False
    proof
      assume nx: "next' (node (objs s' r)) = Some n"
      with l1 c pos have "l1 = n" by (simp add: pick_def)
      with lg c assms(3,4) pos show False
        by (auto simp add: pick_def split: option.splits if_splits)
    next
      assume pv: "prev (node (objs s' r)) = Some n"
      with lg c assms(4) have "l1 = r"
        by (auto simp add: pick_def split: if_splits)
      with lg pv c pos assms(4) show False
        by (auto simp add: pick_def split: if_splits)
    qed
  qed
qed

lemma two_nodes_simps:
  "queues two_nodes timer_queue =
     \<lparr>head = Some 1, tail = Some 2, root = Some 1, compare = Some timer_compare\<rparr>"
  "objs two_nodes =
     (\<lambda>_. zero_timer)
     (1 := zero_timer\<lparr>callback := Some 0, node := \<lparr>next' = Some 2, prev = None, parent = None\<rparr>\<rparr>,
      2 := zero_timer\<lparr>callback := Some 0, node := \<lparr>next' = None, prev = Some 1, parent = None\<rparr>\<rparr>,
      3 := zero_timer\<lparr>callback := Some 0\<rparr>)"
  by (auto simp add: two_nodes_def pq_insert_def boot_simps timer_queue_def Let_def
      zero_timer_def fun_eq_iff)

lemma timer_compare_antisym: "0 < timer_compare h x y \<Longrightarrow> \<not> 0 < timer_compare h y x"
  by (auto simp add: timer_compare_def split: if_splits)

lemma reorder_cycle_aux:
  "reorder_loop p a s = Some r \<Longrightarrow>
   \<not> (a \<noteq> b \<and> compare (queues s p) = Some timer_compare \<and>
      expiry (objs s a) < expiry (objs s b) \<and>
      (next' (node (objs s a)) = None \<and> prev (node (objs s a)) = Some b \<and>
       next' (node (objs s b)) = Some b \<and> prev (node (objs s b)) = None \<or>
       next' (node (objs s a)) = Some b \<and> prev (node (objs s a)) = None \<and>
       next' (node (objs s b)) = None \<and> prev (node (objs s b)) = Some b))"
proof (induction rule: reorder_loop.raw_induct [rotated 1, consumes 1])
  case (1 rl p a s r)
  show ?case
  proof
    assume I: "a \<noteq> b \<and> compare (queues s p) = Some timer_compare \<and>
      expiry (objs s a) < expiry (objs s b) \<and>
      (next' (node (objs s a)) = None \<and> prev (node (objs s a)) = Some b \<and>
       next' (node (objs s b)) = Some b \<and> prev (node (objs s b)) = None \<or>
       next' (node (objs s a)) = Some b \<and> prev (node (objs s a)) = None \<and>
       next' (node (objs s b)) = None \<and> prev (node (objs s b)) = Some b)"
    then have "\<exists>l1. pick p (next' (node (objs s a))) a s = Inr l1 \<and>
        pick p (prev (node (objs s a))) l1 s = Inr b"
      by (auto simp add: pick_def timer_compare_def)
    with I 1(2) have rec: "rl p a (swap_nodes a b s) = Some r"
      by auto
    let ?s = "swap_nodes a b s"
    from I have "a \<noteq> b" by simp
    note lk = swap_nodes_links [OF this, where s = s]
    note st = same_timers_fields [OF same_timers_swap_nodes [of s a b]]
    from I lk(1-4) st(1)
    have "a \<noteq> b \<and> compare (queues ?s p) = Some timer_compare \<and>
      expiry (objs ?s a) < expiry (objs ?s b) \<and>
      (next' (node (objs ?s a)) = None \<and> prev (node (objs ?s a)) = Some b \<and>
       next' (node (objs ?s b)) = Some b \<and> prev (node (objs ?s b)) = None \<or>
       next' (node (objs ?s a)) = Some b \<and> prev (node (objs ?s a)) = None \<and>
       next' (node (objs ?s b)) = None \<and> prev (node (objs ?s b)) = Some b)"
      by auto
    with 1(1) [OF rec] show False by simp
  qed
qed

lemma three_armed_simps:
  "queues three_armed timer_queue =
     \<lparr>head = Some 1, tail = Some 3, root = Some 1, compare = Some timer_compare\<rparr>"
  "objs three_armed =
     (\<lambda>_. zero_timer)
     (1 := zero_timer\<lparr>callback := Some 0, node := \<lparr>next' = Some 2, prev = None, parent = None\<rparr>\<rparr>,
      2 := zero_timer\<lparr>callback := Some 0, expiry := 1,
                       node := \<lparr>next' = Some 3, prev = Some 1, parent = None\<rparr>\<rparr>,
      3 := zero_timer\<lparr>callback := Some 0, expiry := 1,
                       node := \<lparr>next' = None, prev = Some 2, parent = None\<rparr>\<rparr>)"
  by (auto simp add: three_armed_def pq_insert_def two_nodes_simps Let_def
      zero_timer_def fun_eq_iff)

lemma three_armed_loops: "pq_reorder (Some timer_queue) three_armed = None"
proof -
  let ?s1 = "swap_nodes 1 2 three_armed"
  let ?s2 = "swap_nodes 1 3 ?s1"
  have a: "reorder_loop timer_queue 1 three_armed = reorder_loop timer_queue 1 ?s1"
    by (subst reorder_loop.simps)
      (simp add: pick_def three_armed_simps timer_compare_def zero_timer_def word_less_nat_alt)
  have b: "reorder_loop timer_queue 1 ?s1 = reorder_loop timer_queue 1 ?s2"
    by (subst reorder_loop.simps)
      (simp add: pick_def swap_nodes_def Let_def three_armed_simps timer_compare_def
        zero_timer_def word_less_nat_alt)
  have "reorder_loop timer_queue 1 ?s2 \<noteq> Some r" for r
  proof
    assume "reorder_loop timer_queue 1 ?s2 = Some r"
    from reorder_cycle_aux [OF this, of 2] show False
      by (simp add: swap_nodes_def Let_def three_armed_simps zero_timer_def word_less_nat_alt)
  qed
  then have "reorder_loop timer_queue 1 ?s2 = None" by auto
  with a b show ?thesis
    by (simp add: pq_reorder_def three_armed_simps)
qed

text \<open>The state \<open>at_wrap\<close> does not meet the condition on the incremented counter.\<close>

lemma at_wrap_not_tick_ready: "\<not> tick_ready at_wrap"
proof
  assume "tick_ready at_wrap"
  then have "\<forall>a. period (objs at_wrap a) \<noteq> 0 \<longrightarrow>
      unat (global_ticks at_wrap + 1) + unat (period (objs at_wrap a)) < 2 ^ 64"
    by (simp add: tick_ready_def)
  from this [rule_format, of 1]
  have "unat (- 2 + 1 :: 64 word) + unat (1 :: 64 word) < 2 ^ 64"
    by (simp only: at_wrap_sole) simp
  moreover have "(- 1 :: 64 word) = 18446744073709551615" by simp
  ultimately show False by simp
qed

text \<open>
  Why the root must be \<open>NULL\<close> when the head is: with a root left over, \<open>pq_pop\<close> finds
  the head \<open>NULL\<close> and removes nothing, so a due one-shot root is fired without end.
\<close>

lemma stale_root_loops: "timer_increment_tick stale_root = None"
proof -
  have "drain (stale_root\<lparr>global_ticks := global_ticks stale_root + 1\<rparr>) = None"
    by (rule drain_stale [of _ 1])
      (simp_all add: stale_root_def boot_simps timer_queue_def zero_timer_def)
  then show ?thesis by (simp add: timer_increment_tick_def)
qed

text \<open>
  With timer 1 armed for 1 tick and then timer 2 for 5 ticks, the re-balance pass of the
  second arming exchanges the link records of the two nodes; the first call fires
  timer 1 and leaves the tail \<open>NULL\<close>, and the fifth call dereferences that tail in
  \<open>pq_pop\<close>.
\<close>

lemma early_then_late_faults:
  "observe (\<lambda>s. (fired s, head (queues s timer_queue), tail (queues s timer_queue),
                  root (queues s timer_queue))) (andthen early_then_late (run_ticks 4)) =
     Some (Inr ([(1, 1)], Some 1, None, Some 2)) \<and>
   andthen early_then_late (run_ticks 5) = Some (Inl NullDeref)"
  by (simp add: early_then_late_def andthen_def observe_def timer_start_def pq_insert_def
      pq_reorder_def reorder_loop.simps pick_def swap_nodes_def timer_compare_def boot_simps
      timer_queue_def Let_def zero_timer_def timer_increment_tick_def drain.simps
      pq_peek_def tick_body_def pq_pop_def invoke_callback_def word_le_nat_alt
      word_less_nat_alt run_ticks_numeral)

section \<open>The claims\<close>

text \<open>
  C1 (amended). A timer armed one-shot for \<open>ticks \<ge> 1\<close> ticks while the queue is empty
  (so that it is the only armed timer), the counter \<open>C\<close> being such that \<open>C + ticks\<close>
  does not wrap: after \<open>k\<close> calls of \<open>timer_increment_tick\<close> nothing has fired as long
  as \<open>k < ticks\<close>, and from the \<open>ticks\<close>-th call on the trace holds exactly one firing
  of the timer, made when the counter was \<open>C + ticks\<close>.
\<close>

theorem one_shot_alone_fires_once:
  assumes "head (queues s timer_queue) = None" "callback (objs s t) \<noteq> None"
    "1 \<le> unat ticks" "unat (global_ticks s) + unat ticks < 2 ^ 64"
  shows "observe fired (andthen (timer_start t ticks False s) (run_ticks k)) =
           Some (Inr (if k < unat ticks then fired s else fired s @ [(t, global_ticks s + ticks)]))"
proof -
  from timer_start_sole [OF assms(1,2), of ticks False]
  obtain s1 where s1: "timer_start t ticks False s = Some (Inr s1)" "sole t s1"
    "expiry (objs s1 t) = global_ticks s + ticks" "period (objs s1 t) = 0"
    "global_ticks s1 = global_ticks s" "fired s1 = fired s"
    by (elim exE conjE) simp
  from assms(4) have e: "unat (expiry (objs s1 t)) = unat (global_ticks s1) + unat ticks"
    by (simp add: s1 unat_plus)
  show ?thesis
  proof (cases "k < unat ticks")
    case True
    from oneshot_wait [OF s1(2) e True] s1 True show ?thesis
      by (auto simp add: andthen_def observe_def)
  next
    case False
    define m where "m = unat ticks - 1"
    define k' where "k' = k - unat ticks"
    have k: "k = m + Suc k'" and m: "m < unat ticks"
      using False assms(3) by (simp_all add: m_def k'_def)
    from oneshot_wait [OF s1(2) e m]
    obtain s2 where s2: "run_ticks m s1 = Some (Inr s2)" "sole t s2" "objs s2 = objs s1"
      "unat (global_ticks s2) = unat (global_ticks s1) + m" "fired s2 = fired s1"
      by auto
    have u: "unat (global_ticks s2 + 1) = unat (expiry (objs s2 t))"
      using s2 e assms(3,4) s1(5) by (simp add: unat_succ m_def)
    then have eq: "global_ticks s2 + 1 = expiry (objs s2 t)"
      by (simp add: word_unat_eq_iff)
    then have "expiry (objs s2 t) \<le> global_ticks s2 + 1" by simp
    from tick_fire_oneshot [OF s2(2) this] s2(3) s1(4)
    obtain s3 where s3: "timer_increment_tick s2 = Some (Inr s3)"
      "root (queues s3 timer_queue) = None" "head (queues s3 timer_queue) = None"
      "fired s3 = fired s2 @ [(t, global_ticks s2 + 1)]"
      by auto
    from run_ticks_empty [OF s3(2,3), of k']
    obtain s4 where s4: "run_ticks k' s3 = Some (Inr s4)" "fired s4 = fired s3"
      by auto
    have "run_ticks (m + Suc k') s1 = Some (Inr s4)"
      by (simp only: run_ticks_add andthen_def s2 s3 s4 run_ticks.simps option.simps sum.simps)
    then have "run_ticks k s1 = Some (Inr s4)"
      by (simp only: k)
    with s1 s2 s3 s4 eq False show ?thesis
      by (simp add: andthen_def observe_def)
  qed
qed

theorem one_shot_alone_fires_once_witness:
  "observe fired (andthen (timer_start 1 3 False boot) (run_ticks 2)) = Some (Inr []) \<and>
   observe fired (andthen (timer_start 1 3 False boot) (run_ticks 3)) = Some (Inr [(1, 3)])"
proof -
  have h: "head (queues boot timer_queue) = None" "callback (objs boot 1) \<noteq> None"
    "1 \<le> unat (3 :: 64 word)" "unat (global_ticks boot) + unat (3 :: 64 word) < 2 ^ 64"
    by (simp_all add: boot_simps timer_queue_def)
  from one_shot_alone_fires_once [OF h, of 2] one_shot_alone_fires_once [OF h, of 3]
  show ?thesis by (simp add: boot_simps)
qed

text \<open>
  The claim as stated fails. With \<open>ticks = 0\<close> nothing has fired after zero calls, and
  the first call fires the timer with the counter at \<open>C + 1\<close>. With timer 1 armed for 2
  ticks and then timer 2 for 1 tick, timer 2 has not fired after one call.
\<close>

theorem one_shot_counterexample:
  "observe fired (andthen (timer_start 1 0 False boot) (run_ticks 0)) = Some (Inr []) \<and>
   observe fired (andthen (timer_start 1 0 False boot) (run_ticks (Suc 0))) = Some (Inr [(1, 1)]) \<and>
   observe fired (andthen two_one_shots (run_ticks (Suc 0))) = Some (Inr [])"
  by (simp add: two_one_shots_def andthen_def observe_def timer_start_def pq_insert_def
      pq_reorder_def reorder_loop.simps pick_def timer_compare_def boot_simps
      timer_queue_def Let_def zero_timer_def timer_increment_tick_def drain.simps
      pq_peek_def tick_body_def pq_pop_def invoke_callback_def word_le_nat_alt
      word_less_nat_alt)

text \<open>
  C2 (the code departs from it). After a re-balance pass with the dispatcher's comparator
  the root's deadline should be at most that of its list neighbours. Arming timer 1 for
  5 ticks and then timer 2 for 3 ticks leaves timer 1 as root, with timer 2 as its next
  neighbour: the root's deadline 5 exceeds the neighbour's deadline 3, because
  \<open>pq_reorder\<close> moves towards the node that compares greater and \<open>timer_compare\<close> is
  positive for the later deadline.
\<close>

theorem reorder_keeps_later_deadline_at_root:
  "observe (\<lambda>s. (root (queues s timer_queue), next' (node (objs s 1)),
                  expiry (objs s 1), expiry (objs s 2))) late_then_early
   = Some (Inr (Some 1, Some 2, 5, 3))"
  by (simp add: late_then_early_def andthen_def observe_def timer_start_def pq_insert_def
      pq_reorder_def reorder_loop.simps pick_def timer_compare_def boot_simps upd_defs
      timer_queue_def Let_def zero_timer_def)

text \<open>
  C3 (the code departs from it). A sift step of \<open>pq_reorder\<close> should exchange the
  payloads of the root and the neighbour that outranks it, leave the \<open>next\<close> and \<open>prev\<close>
  linkage of the list as it is, and the pass should stop. With node 1 (deadline 1)
  followed by node 2 (deadline 5), the pass leaves both deadlines where they were and
  rewrites the links: node 1 becomes its own predecessor and node 2 its own successor,
  so the list from the head no longer reaches node 2. With three nodes of deadlines
  0, 1 and 1 in list order, the pass never returns.
\<close>

theorem pq_reorder_breaks_links_or_hangs:
  "(expiry (objs two_armed 1), expiry (objs two_armed 2),
    next' (node (objs two_armed 1)), prev (node (objs two_armed 1)),
    next' (node (objs two_armed 2)), prev (node (objs two_armed 2))) =
     (1, 5, Some 2, None, None, Some 1) \<and>
   observe (\<lambda>s'. (expiry (objs s' 1), expiry (objs s' 2),
                  next' (node (objs s' 1)), prev (node (objs s' 1)),
                  next' (node (objs s' 2)), prev (node (objs s' 2))))
     (pq_reorder (Some timer_queue) two_armed) =
     Some (Inr (1, 5, None, Some 1, Some 2, None)) \<and>
   pq_reorder (Some timer_queue) three_armed = None"
  using three_armed_loops
  by (simp add: observe_def two_armed_def pq_reorder_def reorder_loop.simps pick_def
      swap_nodes_def Let_def two_nodes_simps timer_compare_def zero_timer_def word_less_nat_alt)

text \<open>
  C4. \<open>pq_pop\<close> on a \<open>NULL\<close> or empty queue returns \<open>NULL\<close> and changes nothing; on a
  queue whose head is its tail it returns the root and resets head, tail and root; on a
  longer queue it returns the root, the prior tail becomes the root, the tail moves to
  the prior tail's predecessor (whose \<open>next\<close> is cleared), and the new root's links are
  cleared.
\<close>

theorem pq_pop_rotation:
  "pq_pop None s = Inr (None, s) \<and>
   (head (queues s p) = None \<longrightarrow> pq_pop (Some p) s = Inr (None, s)) \<and>
   (head (queues s p) = Some h \<and> tail (queues s p) = Some h \<longrightarrow>
      pq_pop (Some p) s =
        Inr (root (queues s p), upd_pq p (\<lambda>q. q\<lparr>head := None, tail := None, root := None\<rparr>) s)) \<and>
   (head (queues s p) = Some h \<and> tail (queues s p) = Some t \<and> h \<noteq> t \<longrightarrow>
      (\<exists>s'. pq_pop (Some p) s = Inr (root (queues s p), s') \<and>
            root (queues s' p) = Some t \<and>
            tail (queues s' p) = prev (node (objs s t)) \<and>
            head (queues s' p) = Some h \<and>
            next' (node (objs s' t)) = None \<and> prev (node (objs s' t)) = None \<and>
            (\<forall>pv. prev (node (objs s t)) = Some pv \<and> pv \<noteq> t \<longrightarrow> next' (node (objs s' pv)) = None) \<and>
            (\<forall>a. a \<noteq> t \<and> prev (node (objs s t)) \<noteq> Some a \<longrightarrow> objs s' a = objs s a)))"
  by (auto simp add: pq_pop_def upd_defs Let_def split: option.splits)

theorem pq_pop_rotation_witness:
  "pq_pop (Some timer_queue) boot = Inr (None, boot) \<and>
   map_sum id (\<lambda>(r, s'). (r, head (queues s' timer_queue), tail (queues s' timer_queue),
                            root (queues s' timer_queue)))
     (pq_pop (Some timer_queue) one_node) = Inr (Some 1, None, None, None) \<and>
   map_sum id (\<lambda>(r, s'). (r, tail (queues s' timer_queue), root (queues s' timer_queue),
                            next' (node (objs s' 1))))
     (pq_pop (Some timer_queue) two_nodes) = Inr (Some 1, Some 1, Some 2, None)"
  using pq_pop_rotation [where s = boot and p = timer_queue]
    pq_pop_rotation [where s = one_node and p = timer_queue and h = 1]
    pq_pop_rotation [where s = two_nodes and p = timer_queue and h = 1 and t = 2]
  by (auto simp add: one_node_def two_nodes_def pq_insert_def boot_simps upd_defs
      timer_queue_def Let_def)

text \<open>
  C5 (the code departs from it). The node returned by \<open>pq_pop\<close> from a queue of two
  nodes should be detached. After \<open>pq_insert\<close> of node 1 and node 2, \<open>pq_pop\<close> returns
  node 1, and head and tail both still point to node 1.
\<close>

theorem pq_pop_leaves_head_on_popped_node:
  "(head (queues two_nodes timer_queue), tail (queues two_nodes timer_queue),
    root (queues two_nodes timer_queue)) = (Some 1, Some 2, Some 1) \<and>
   map_sum id (\<lambda>(r, s'). (r, head (queues s' timer_queue), tail (queues s' timer_queue),
                            root (queues s' timer_queue)))
     (pq_pop (Some timer_queue) two_nodes)
   = Inr (Some 1, Some 1, Some 1, Some 2)"
  by (simp add: two_nodes_def pq_insert_def pq_pop_def boot_simps upd_defs timer_queue_def Let_def)

text \<open>
  C6 (the code departs from it). A periodic timer of period \<open>p\<close> should fire \<open>N\<close> times
  in \<open>N * p\<close> calls of \<open>timer_increment_tick\<close>. With timer 1 and then timer 2 armed
  periodic with period 1, two calls fire timer 1 once: in the first call timer 1 fires
  and is re-inserted, then the pop for timer 2 finds head and tail equal and empties the
  queue, so that timer 1 is no longer a member although its deadline 2 and period 1 say
  that it is armed.
\<close>

theorem periodic_timer_dropped:
  "observe (\<lambda>s. (fired s, head (queues s timer_queue), tail (queues s timer_queue),
                  root (queues s timer_queue), expiry (objs s 1), period (objs s 1)))
     (andthen (andthen two_periodic timer_increment_tick) timer_increment_tick) =
     Some (Inr ([(1, 1), (2, 1), (2, 2)], Some 2, Some 2, Some 2, 2, 1))"
  by (simp add: two_periodic_def andthen_def observe_def timer_start_def pq_insert_def
      pq_reorder_def reorder_loop.simps pick_def timer_compare_def boot_simps
      timer_queue_def Let_def zero_timer_def timer_increment_tick_def drain.simps
      pq_peek_def tick_body_def pq_pop_def invoke_callback_def word_le_nat_alt
      word_less_nat_alt)

text \<open>
  C7. \<open>pq_init\<close> with a \<open>NULL\<close> queue or comparator, and \<open>pq_insert\<close> with a \<open>NULL\<close>
  queue or node, return \<open>-EINVAL\<close> and the state they were given.
\<close>

theorem pq_null_args_rejected:
  "(pq = None \<or> cmp = None \<longrightarrow> pq_init pq cmp s = (- EINVAL, s)) \<and>
   (pq = None \<or> nd = None \<longrightarrow> pq_insert pq nd s = Inr (- EINVAL, s))"
  by (simp add: pq_init_def pq_insert_def)

theorem pq_null_args_rejected_witness:
  "pq_init None (Some timer_compare) boot = (- 22, boot) \<and>
   pq_init (Some timer_queue) None boot = (- 22, boot) \<and>
   pq_insert None (Some 1) boot = Inr (- 22, boot) \<and>
   pq_insert (Some timer_queue) None boot = Inr (- 22, boot)"
  using pq_null_args_rejected [where pq = None and cmp = "Some timer_compare" and s = boot]
    pq_null_args_rejected [where pq = "Some timer_queue" and cmp = None and s = boot]
    pq_null_args_rejected [where pq = None and nd = "Some 1" and s = boot]
    pq_null_args_rejected [where pq = "Some timer_queue" and nd = None and s = boot]
  by (simp add: EINVAL_def)

text \<open>
  C8. \<open>timer_increment_tick\<close> first adds one to the counter in 64-bit arithmetic and
  runs the drain loop and the re-balance pass on that state; a call that returns leaves
  the counter at its former value plus one; after \<open>n\<close> calls the counter is the initial value
  plus \<open>n\<close> modulo \<open>2 ^ 64\<close>, and it has not decreased as long as that sum stays below
  \<open>2 ^ 64\<close>.
\<close>

theorem tick_counter_increments:
  "timer_increment_tick s =
     andthen (drain (s\<lparr>global_ticks := global_ticks s + 1\<rparr>)) (pq_reorder (Some timer_queue)) \<and>
   (timer_increment_tick s = Some (Inr s') \<longrightarrow> global_ticks s' = global_ticks s + 1) \<and>
   (run_ticks n s = Some (Inr s'') \<longrightarrow>
      global_ticks s'' = global_ticks s + of_nat n \<and>
      unat (global_ticks s'') = (unat (global_ticks s) + n) mod 2 ^ 64 \<and>
      (unat (global_ticks s) + n < 2 ^ 64 \<longrightarrow> global_ticks s \<le> global_ticks s''))"
proof -
  have "unat (global_ticks s + of_nat n) = (unat (global_ticks s) + n) mod 2 ^ 64"
    by (simp add: unat_word_ariths unat_of_nat mod_add_right_eq)
  moreover have "global_ticks s \<le> global_ticks s + of_nat n"
    if "unat (global_ticks s) + n < 2 ^ 64"
    using that by (simp add: word_le_nat_alt unat_word_ariths unat_of_nat mod_add_right_eq)
  moreover have "timer_increment_tick s =
      andthen (drain (s\<lparr>global_ticks := global_ticks s + 1\<rparr>)) (pq_reorder (Some timer_queue))"
    by (simp add: timer_increment_tick_def andthen_def Let_def split: option.splits sum.splits)
  ultimately show ?thesis
    by (auto dest!: timer_increment_tick_ticks run_ticks_ticks)
qed

theorem tick_counter_increments_witness:
  "timer_increment_tick (boot\<lparr>global_ticks := - 1\<rparr>) = Some (Inr (boot\<lparr>global_ticks := 0\<rparr>)) \<and>
   global_ticks (boot\<lparr>global_ticks := 0\<rparr>) = global_ticks (boot\<lparr>global_ticks := - 1\<rparr>) + 1 \<and>
   run_ticks 3 (boot\<lparr>global_ticks := 7\<rparr>) = Some (Inr (boot\<lparr>global_ticks := 10\<rparr>)) \<and>
   global_ticks (boot\<lparr>global_ticks := 10\<rparr>) = global_ticks (boot\<lparr>global_ticks := 7\<rparr>) + of_nat 3 \<and>
   global_ticks (boot\<lparr>global_ticks := 7\<rparr>) \<le> global_ticks (boot\<lparr>global_ticks := 10\<rparr>)"
proof -
  have e: "root (queues (boot\<lparr>global_ticks := g\<rparr>) timer_queue) = None"
    "head (queues (boot\<lparr>global_ticks := g\<rparr>) timer_queue) = None" for g
    by (simp_all add: boot_simps timer_queue_def)
  have a: "timer_increment_tick (boot\<lparr>global_ticks := - 1\<rparr>) = Some (Inr (boot\<lparr>global_ticks := 0\<rparr>))"
    using tick_empty [OF e, of "- 1"] by simp
  have b: "run_ticks 3 (boot\<lparr>global_ticks := 7\<rparr>) = Some (Inr (boot\<lparr>global_ticks := 10\<rparr>))"
    using tick_empty [OF e, of 7] tick_empty [OF e, of 8] tick_empty [OF e, of 9]
    by (simp add: run_ticks_numeral)
  from tick_counter_increments [of "boot\<lparr>global_ticks := - 1\<rparr>" "boot\<lparr>global_ticks := 0\<rparr>"]
    tick_counter_increments [where n = 3 and s = "boot\<lparr>global_ticks := 7\<rparr>"
      and s'' = "boot\<lparr>global_ticks := 10\<rparr>"] a b
  show ?thesis by simp
qed

text \<open>
  C9 (amended). Let the state at a call of \<open>timer_increment_tick\<close> be such that the root
  is \<open>NULL\<close> whenever the head is, finitely many nodes have a \<open>prev\<close> link, finitely many
  timers have a nonzero period, and the counter plus one (in 64-bit arithmetic) plus any
  nonzero period stays below \<open>2 ^ 64\<close>. Then the drain loop of that call ends: it
  returns, and the call goes on to the re-balance pass, or it stops at a \<open>NULL\<close>
  dereference. Every iteration of that loop that completes pops the root and calls its
  callback; for a timer of period 0 that is all, and a timer of nonzero period is then
  re-inserted by \<open>pq_insert\<close> with its deadline increased by its period, without
  wrap-around.
\<close>

theorem drain_loop_ends:
  assumes "tick_ready s"
  shows "(\<exists>r. drain (s\<lparr>global_ticks := global_ticks s + 1\<rparr>) = Some r \<and>
              timer_increment_tick s =
                (case r of Inl f \<Rightarrow> Some (Inl f)
                 | Inr s2 \<Rightarrow> pq_reorder (Some timer_queue) s2)) \<and>
         (\<forall>s1 t s'. visits (s\<lparr>global_ticks := global_ticks s + 1\<rparr>) s1 \<and>
                   pq_peek (Some timer_queue) s1 = Some t \<and>
                   expiry (objs s1 t) \<le> global_ticks s1 \<and> tick_body t s1 = Inr s' \<longrightarrow>
            (\<exists>popped s2.
               pq_pop (Some timer_queue) s1 = Inr (popped, s2) \<and>
               (if period (objs s1 t) = 0
                then s' = s2\<lparr>fired := fired s2 @ [(t, global_ticks s2)]\<rparr>
                else (\<exists>rc. pq_insert (Some timer_queue) (Some t)
                             (upd_timer t (\<lambda>x. x\<lparr>expiry := expiry x + period x\<rparr>)
                                (s2\<lparr>fired := fired s2 @ [(t, global_ticks s2)]\<rparr>)) = Inr (rc, s')) \<and>
                     period (objs s' t) = period (objs s1 t) \<and>
                     unat (expiry (objs s' t)) =
                       unat (expiry (objs s1 t)) + unat (period (objs s1 t)) \<and>
                     expiry (objs s1 t) < expiry (objs s' t))))"
proof (intro conjI allI impI)
  let ?s1 = "s\<lparr>global_ticks := global_ticks s + 1\<rparr>"
  from drain_ends [OF tick_ready_drain_ready [OF assms]]
  obtain r where r: "drain ?s1 = Some r" by auto
  then have "timer_increment_tick s =
      (case r of Inl f \<Rightarrow> Some (Inl f) | Inr s2 \<Rightarrow> pq_reorder (Some timer_queue) s2)"
    by (simp add: timer_increment_tick_def split: sum.splits)
  with r show "\<exists>r. drain ?s1 = Some r \<and>
      timer_increment_tick s =
        (case r of Inl f \<Rightarrow> Some (Inl f) | Inr s2 \<Rightarrow> pq_reorder (Some timer_queue) s2)"
    by blast
next
  fix s1 t s'
  assume a: "visits (s\<lparr>global_ticks := global_ticks s + 1\<rparr>) s1 \<and>
                   pq_peek (Some timer_queue) s1 = Some t \<and>
                   expiry (objs s1 t) \<le> global_ticks s1 \<and> tick_body t s1 = Inr s'"
  then have "drain_ready s1"
    using visits_drain_ready [OF _ tick_ready_drain_ready [OF assms]] by blast
  from tick_body_iteration [OF this] a
  show "\<exists>popped s2.
               pq_pop (Some timer_queue) s1 = Inr (popped, s2) \<and>
               (if period (objs s1 t) = 0
                then s' = s2\<lparr>fired := fired s2 @ [(t, global_ticks s2)]\<rparr>
                else (\<exists>rc. pq_insert (Some timer_queue) (Some t)
                             (upd_timer t (\<lambda>x. x\<lparr>expiry := expiry x + period x\<rparr>)
                                (s2\<lparr>fired := fired s2 @ [(t, global_ticks s2)]\<rparr>)) = Inr (rc, s')) \<and>
                     period (objs s' t) = period (objs s1 t) \<and>
                     unat (expiry (objs s' t)) =
                       unat (expiry (objs s1 t)) + unat (period (objs s1 t)) \<and>
                     expiry (objs s1 t) < expiry (objs s' t))"
    by blast
qed

theorem drain_loop_ends_witness:
  "tick_ready due_periodic \<and>
   observe fired (drain (due_periodic\<lparr>global_ticks := global_ticks due_periodic + 1\<rparr>)) =
     Some (Inr [(1, 8), (1, 8)]) \<and>
   observe fired (timer_increment_tick due_periodic) = Some (Inr [(1, 8), (1, 8)]) \<and>
   map_sum id (\<lambda>s'. (expiry (objs s' 1), period (objs s' 1), root (queues s' timer_queue)))
     (tick_body 1 (due_periodic\<lparr>global_ticks := global_ticks due_periodic + 1\<rparr>)) =
     Inr (6, 3, Some 1)"
proof -
  have "{a. prev (node (objs due_periodic a)) \<noteq> None} = {}"
    "{a. period (objs due_periodic a) \<noteq> 0} = {1}"
    by (auto simp add: due_periodic_simps zero_timer_def)
  then have h: "tick_ready due_periodic"
    by (simp add: tick_ready_def due_periodic_simps zero_timer_def)
  have ev: "observe fired (drain (due_periodic\<lparr>global_ticks := global_ticks due_periodic + 1\<rparr>)) =
      Some (Inr [(1, 8), (1, 8)])"
    "observe fired (timer_increment_tick due_periodic) = Some (Inr [(1, 8), (1, 8)])"
    "map_sum id (\<lambda>s'. (expiry (objs s' 1), period (objs s' 1), root (queues s' timer_queue)))
       (tick_body 1 (due_periodic\<lparr>global_ticks := global_ticks due_periodic + 1\<rparr>)) =
       Inr (6, 3, Some 1)"
    by (simp_all add: observe_def timer_increment_tick_def drain.simps pq_peek_def tick_body_def
        pq_pop_def pq_insert_def pq_reorder_def reorder_loop.simps pick_def
        invoke_callback_def due_periodic_simps zero_timer_def Let_def word_le_nat_alt)
  from drain_loop_ends [OF h] h ev show ?thesis by blast
qed

text \<open>
  The claim as stated fails. With the counter at \<open>2 ^ 64 - 2\<close> and timer 1 armed
  periodic with period 1, the next call of \<open>timer_increment_tick\<close> never returns: the
  counter becomes \<open>2 ^ 64 - 1\<close>, every deadline is at most that, and the deadline wraps
  instead of growing.
\<close>

theorem drain_loop_counterexample:
  "sole 1 at_wrap \<and> period (objs at_wrap 1) = 1 \<and> global_ticks at_wrap = - 2 \<and>
   timer_increment_tick at_wrap = None"
proof -
  have "drain (at_wrap\<lparr>global_ticks := global_ticks at_wrap + 1\<rparr>) = None"
    using at_wrap_sole by (intro drain_at_max [of 1]) (simp_all add: sole_def)
  then show ?thesis
    using at_wrap_sole by (simp add: timer_increment_tick_def)
qed

text \<open>
  C10. \<open>timer_start(t, 0, true)\<close> stores period 0. A loop iteration for a timer of
  period 0 is the pop and the callback alone, with no \<open>pq_insert\<close>. Armed so into an
  empty queue (the counter not at its maximum), the timer fires on the next call of
  \<open>timer_increment_tick\<close> and the queue is empty afterwards.
\<close>

theorem zero_ticks_periodic_is_one_shot:
  "(timer_start t 0 True s = Some (Inr s1) \<longrightarrow> period (objs s1 t) = 0) \<and>
   (period (objs s2 t) = 0 \<longrightarrow>
      tick_body t s2 =
        (case pq_pop (Some timer_queue) s2 of
           Inl f \<Rightarrow> Inl f
         | Inr (popped, s3) \<Rightarrow> invoke_callback t s3)) \<and>
   (head (queues s timer_queue) = None \<and> callback (objs s t) \<noteq> None \<and>
    global_ticks s \<noteq> - 1 \<longrightarrow>
      (\<exists>s'. andthen (timer_start t 0 True s) timer_increment_tick = Some (Inr s') \<and>
            fired s' = fired s @ [(t, global_ticks s + 1)] \<and>
            head (queues s' timer_queue) = None \<and>
            pq_peek (Some timer_queue) s' = None))"
proof (intro conjI impI)
  assume "timer_start t 0 True s = Some (Inr s1)"
  then obtain rc s3 where
    i: "pq_insert (Some timer_queue) (Some t)
          (upd_timer t (\<lambda>x. x\<lparr>period := 0\<rparr>)
             (upd_timer t (\<lambda>x. x\<lparr>expiry := global_ticks s + 0\<rparr>) s)) = Inr (rc, s3)"
    and r: "pq_reorder (Some timer_queue) s3 = Some (Inr s1)"
    by (auto simp add: timer_start_def Let_def split: sum.splits)
  from same_timers_fields(2) [OF same_timers_pq_insert [OF i], of t]
    same_timers_fields(2) [OF conjunct1 [OF pq_reorder_same [OF r]], of t]
  show "period (objs s1 t) = 0" by simp
next
  assume "period (objs s2 t) = 0"
  then show "tick_body t s2 =
        (case pq_pop (Some timer_queue) s2 of
           Inl f \<Rightarrow> Inl f
         | Inr (popped, s3) \<Rightarrow> invoke_callback t s3)"
    by (auto simp add: tick_body_def split: sum.splits
        dest!: invoke_callback_Inr dest: same_timers_fields(2) [OF same_timers_pq_pop, of _ _ _ _ t])
next
  assume a: "head (queues s timer_queue) = None \<and> callback (objs s t) \<noteq> None \<and>
    global_ticks s \<noteq> - 1"
  then obtain s1 where s1: "timer_start t 0 True s = Some (Inr s1)" "sole t s1"
    "expiry (objs s1 t) = global_ticks s" "period (objs s1 t) = 0"
    "global_ticks s1 = global_ticks s" "fired s1 = fired s"
    using timer_start_sole [of s t 0 True] by auto
  from a have "global_ticks s \<le> global_ticks s + 1"
    by (meson inc_less_eq_triv_imp nle_le)
  with s1 have "expiry (objs s1 t) \<le> global_ticks s1 + 1" by simp
  from tick_fire_oneshot [OF s1(2) this s1(4)] s1
  show "\<exists>s'. andthen (timer_start t 0 True s) timer_increment_tick = Some (Inr s') \<and>
            fired s' = fired s @ [(t, global_ticks s + 1)] \<and>
            head (queues s' timer_queue) = None \<and>
            pq_peek (Some timer_queue) s' = None"
    by (auto simp add: andthen_def pq_peek_def)
qed

theorem zero_ticks_periodic_is_one_shot_witness:
  "observe (\<lambda>s. period (objs s 1)) (timer_start 1 0 True boot) = Some (Inr 0) \<and>
   observe (\<lambda>s. (fired s, head (queues s timer_queue), pq_peek (Some timer_queue) s))
     (andthen (timer_start 1 0 True boot) timer_increment_tick) = Some (Inr ([(1, 1)], None, None))"
proof -
  have h: "head (queues boot timer_queue) = None \<and> callback (objs boot 1) \<noteq> None \<and>
    global_ticks boot \<noteq> - 1"
    by (simp add: boot_simps timer_queue_def)
  obtain s1 where s1: "timer_start 1 0 True boot = Some (Inr s1)"
    using timer_start_sole [of boot 1 0 True] h by auto
  from zero_ticks_periodic_is_one_shot [of 1 boot s1 boot] s1 h
  show ?thesis by (auto simp add: observe_def boot_simps)
qed

end
